theory Spec2Isabelle
  imports Main
begin

section \<open>Data model\<close>

text \<open>
  The turn scheduler of the podcast server lives in
  \<^verbatim>\<open>src/server/services/ConversationService.ts\<close>; the generation backend in
  \<^verbatim>\<open>src/server/services/AIService.ts\<close>; the context source in
  \<^verbatim>\<open>src/server/services/MoltbookService.ts\<close>.

  JavaScript numbers that count turns are modelled as \<open>nat\<close> (they start at 0 and are
  only incremented; below \<open>2^53\<close> the increment is exact), timestamps of
  \<^verbatim>\<open>Date.now()\<close> as \<open>int\<close> milliseconds. A string is a list of characters, one
  \<open>char\<close> standing for one code unit below 256.
\<close>

record MoltbookPost =
  votes :: int
  username :: string
  timestamp :: string
  title :: string
  content :: string
  comments :: int
  url :: string
  community :: string

text \<open>\<^verbatim>\<open>Persona\<close>: the prompt template is only ever sent to the backend, whose reply
  is an input of this model, so the template text itself is not part of it.\<close>

record Persona =
  name :: string
  role :: string

definition AGENT_1_PERSONA :: Persona where
  "AGENT_1_PERSONA = \<lparr>name = ''Agent 1'', role = ''Podcast Host''\<rparr>"

definition AGENT_2_PERSONA :: Persona where
  "AGENT_2_PERSONA = \<lparr>name = ''Agent 2'', role = ''Podcast Host''\<rparr>"

definition BOSS_PERSONA :: Persona where
  "BOSS_PERSONA = AGENT_1_PERSONA"

definition GIRL_PERSONA :: Persona where
  "GIRL_PERSONA = AGENT_2_PERSONA"

datatype speaker_id = boss | girl

text \<open>\<^verbatim>\<open>DialogueLine\<close>; the field \<^verbatim>\<open>text\<close> is called \<open>lineText\<close> here, and an absent
  \<^verbatim>\<open>newPost\<close> (\<^verbatim>\<open>undefined\<close>) is \<open>None\<close>.\<close>

record DialogueLine =
  speaker :: speaker_id
  speakerName :: string
  lineText :: string
  turnNumber :: nat
  newPost :: "MoltbookPost option"

text \<open>\<^verbatim>\<open>ConversationHistoryEntry\<close>, fields \<^verbatim>\<open>speaker\<close> and \<^verbatim>\<open>text\<close>.\<close>

record ConversationHistoryEntry =
  entrySpeaker :: string
  entryText :: string

record ConversationState =
  history :: "ConversationHistoryEntry list"
  currentSpeaker :: speaker_id
  turnCount :: nat
  isActive :: bool
  pendingResponse :: "DialogueLine option"
  isGenerating :: bool
  postShownAt :: "int option"
  lockedPost :: "MoltbookPost option"
  postLocked :: bool
  previousPost :: "MoltbookPost option"
  postJustChanged :: bool

definition POST_TIMEOUT_MS :: int where
  "POST_TIMEOUT_MS = 2 * 60 * 1000"

definition getInitialState :: ConversationState where
  "getInitialState =
     \<lparr>history = [], currentSpeaker = boss, turnCount = 0, isActive = False,
      pendingResponse = None, isGenerating = False, postShownAt = None,
      lockedPost = None, postLocked = False, previousPost = None,
      postJustChanged = False\<rparr>"

section \<open>String helpers\<close>

text \<open>The regular expressions of the source only need: removing every occurrence of a
  literal (with or without ASCII case folding), removing a \<^verbatim>\<open><think>\<close> block, and
  trimming white space.\<close>

definition lowerCode :: "char \<Rightarrow> nat" where
  "lowerCode c = (let n = of_char c in if 65 \<le> n \<and> n \<le> 90 then n + 32 else n)"

definition isSpace :: "char \<Rightarrow> bool" where
  "isSpace c = ((of_char c :: nat) \<in> {9, 10, 11, 12, 13, 32, 160})"

definition trim :: "string \<Rightarrow> string" where
  "trim s = rev (dropWhile isSpace (rev (dropWhile isSpace s)))"

text \<open>Does the pattern match at the start of the text? \<open>ci\<close> is the \<^verbatim>\<open>i\<close> flag.\<close>

fun startsWith :: "bool \<Rightarrow> string \<Rightarrow> string \<Rightarrow> bool" where
  "startsWith ci [] s = True"
| "startsWith ci (p # ps) [] = False"
| "startsWith ci (p # ps) (c # cs) =
     ((if ci then lowerCode p = lowerCode c else p = c) \<and> startsWith ci ps cs)"

text \<open>\<^verbatim>\<open>s.replace(/literal/g, '')\<close>: scan from the left, drop each match and go on
  after it.\<close>

function removeAll :: "bool \<Rightarrow> string \<Rightarrow> string \<Rightarrow> string" where
  "removeAll ci p [] = []"
| "removeAll ci p (c # cs) =
     (if startsWith ci p (c # cs) then removeAll ci p (drop (length p - 1) cs)
      else c # removeAll ci p cs)"
  by pat_completeness auto
termination
  by (relation "measure (\<lambda>(ci, p, s). length s)") auto




section \<open>The generation backend (AIService)\<close>







section \<open>The turn scheduler (ConversationService)\<close>

subsection \<open>Synchronous helpers\<close>

text \<open>\<^verbatim>\<open>cleanResponse\<close>: \<^verbatim>\<open>text.replace(/\[NEXT_POST\]/gi, '').trim()\<close>.\<close>

definition cleanResponse :: "string \<Rightarrow> string" where
  "cleanResponse t = trim (removeAll True ''[NEXT_POST]'' t)"

text \<open>\<^verbatim>\<open>isPostTimedOut\<close>: \<open>now\<close> is the value of \<^verbatim>\<open>Date.now()\<close>. A timestamp of 0
  is falsy, like \<^verbatim>\<open>null\<close>.\<close>

definition isPostTimedOut :: "int \<Rightarrow> ConversationState \<Rightarrow> bool" where
  "isPostTimedOut now s =
     (case postShownAt s of
        None \<Rightarrow> False
      | Some t \<Rightarrow> if t = 0 then False else now - t \<ge> POST_TIMEOUT_MS)"

definition resetPostTimer :: "int \<Rightarrow> ConversationState \<Rightarrow> ConversationState" where
  "resetPostTimer now s = s\<lparr>postShownAt := Some now\<rparr>"

text \<open>\<^verbatim>\<open>lockPost\<close>: the spread copy of the post is the same value.\<close>

definition lockPost :: "MoltbookPost option \<Rightarrow> ConversationState \<Rightarrow> ConversationState" where
  "lockPost post s =
     (case post of
        Some p \<Rightarrow> s\<lparr>lockedPost := Some p, postLocked := True\<rparr>
      | None \<Rightarrow> s)"

definition getLockedPost :: "ConversationState \<Rightarrow> MoltbookPost option" where
  "getLockedPost s = lockedPost s"

definition getCurrentPersona :: "ConversationState \<Rightarrow> Persona" where
  "getCurrentPersona s = (if currentSpeaker s = boss then BOSS_PERSONA else GIRL_PERSONA)"

text \<open>\<^verbatim>\<open>xs.slice(-n)\<close> for a positive \<open>n\<close>: the last \<open>n\<close> elements, all of them when there
  are fewer.\<close>

definition sliceLast :: "nat \<Rightarrow> 'a list \<Rightarrow> 'a list" where
  "sliceLast n xs = drop (length xs - n) xs"

fun joinLines :: "string list \<Rightarrow> string" where
  "joinLines [] = []"
| "joinLines [l] = l"
| "joinLines (l # ls) = l @ [CHR 0x0A] @ joinLines ls"

definition buildConversationHistory :: "ConversationState \<Rightarrow> string" where
  "buildConversationHistory s =
     (if length (history s) = 0 then ''(conversation just started)''
      else joinLines (map (\<lambda>entry. entrySpeaker entry @ '': '' @ entryText entry)
                          (sliceLast 20 (history s))))"

text \<open>Decimal rendering of a number in a template string.\<close>

fun digits :: "nat \<Rightarrow> string" where
  "digits n = (if n < 10 then [char_of (48 + n)] else digits (n div 10) @ [char_of (48 + n mod 10)])"

definition showInt :: "int \<Rightarrow> string" where
  "showInt i = (if i < 0 then ''-'' @ digits (nat (- i)) else digits (nat i))"

definition buildCurrentPostContext :: "MoltbookPost option \<Rightarrow> bool \<Rightarrow> string" where
  "buildCurrentPostContext post justChanged =
     (case post of
        None \<Rightarrow> ''(no post on screen yet)''
      | Some p \<Rightarrow>
          (let context = ''@'' @ username p @ '': '' @ [CHR 0x22] @ title p @ [CHR 0x22, CHR 0x0A]
                 @ content p @ [CHR 0x0A]
                 @ ''('' @ showInt (votes p) @ '' upvotes, '' @ showInt (comments p)
                 @ '' comments)''
           in if justChanged then
                context @ [CHR 0x0A, CHR 0x0A]
                  @ ''[THE SCREEN JUST CHANGED TO THIS NEW POST - acknowledge the new post naturally, like ''
                  @ [CHR 0x22] @ ''oh look, new post'' @ [CHR 0x22] @ '' or ''
                  @ [CHR 0x22] @ ''okay what do we have here'' @ [CHR 0x22] @ '']''
              else context))"

subsection \<open>One generation cycle, cut at its await points\<close>

text \<open>
  \<^verbatim>\<open>generateNextResponse\<close> is an async function: it runs synchronously up to an
  \<^verbatim>\<open>await\<close>, and goes on when the awaited call of a collaborator settles. The
  collaborators are inputs of the model: a call either returns a value or throws.
  A suspended cycle is a \<open>gen_task\<close> holding the local variables that are still
  needed:
  \<^item> \<open>AwaitLatestPost isFirstTurn\<close>: at \<^verbatim>\<open>await this.moltbookService.getLatestPost()\<close>;
  \<^item> \<open>AwaitAI isFirstTurn postForAI persona conversationHistory postContext\<close>: at
    \<^verbatim>\<open>await this.getAIService().generateResponse(persona, conversationHistory, postContext)\<close>;
  \<^item> \<open>AwaitRefresh postForAI persona cleanText\<close>: inside \<^verbatim>\<open>advancePost\<close>, at
    \<^verbatim>\<open>await this.moltbookService.refresh()\<close>.
  A cycle ends in one of three ways: the early return of a reentrant call
  (\<open>Skipped\<close>), the end of the \<^verbatim>\<open>try\<close> block (\<open>Completed\<close>) or the
  \<^verbatim>\<open>catch\<close> block (\<open>Caught\<close>).
\<close>

datatype 'a outcome = Returns 'a | Throws

datatype gen_task =
    AwaitLatestPost bool
  | AwaitAI bool "MoltbookPost option" Persona string string
  | AwaitRefresh "MoltbookPost option" Persona string

datatype gen_progress = Skipped | Suspended gen_task | Completed | Caught

text \<open>The \<^verbatim>\<open>finally\<close> block.\<close>

definition finallyBlock :: "ConversationState \<Rightarrow> ConversationState" where
  "finallyBlock s = s\<lparr>isGenerating := False\<rparr>"

text \<open>Steps 2 and 3: read the locked post, build the prompt, clear the flag, call the
  backend.\<close>

definition buildPrompt :: "bool \<Rightarrow> ConversationState \<Rightarrow> ConversationState \<times> gen_progress" where
  "buildPrompt isFirstTurn s =
     (let postForAI = getLockedPost s;
          justChanged = postJustChanged s;
          persona = getCurrentPersona s;
          conversationHistory = buildConversationHistory s;
          postContext = buildCurrentPostContext postForAI justChanged
      in (s\<lparr>postJustChanged := False\<rparr>,
          Suspended (AwaitAI isFirstTurn postForAI persona conversationHistory postContext)))"

text \<open>The call of \<^verbatim>\<open>generateNextResponse\<close>, up to its first \<^verbatim>\<open>await\<close>.\<close>

definition beginGeneration :: "ConversationState \<Rightarrow> ConversationState \<times> gen_progress" where
  "beginGeneration s =
     (if isGenerating s then (s, Skipped)
      else
        (let s1 = s\<lparr>isGenerating := True\<rparr>;
             isFirstTurn = (turnCount s1 = 0)
         in if lockedPost s1 = None then (s1, Suspended (AwaitLatestPost isFirstTurn))
            else buildPrompt isFirstTurn s1))"

definition afterLatestPost ::
  "bool \<Rightarrow> MoltbookPost option outcome \<Rightarrow> ConversationState \<Rightarrow> ConversationState \<times> gen_progress" where
  "afterLatestPost isFirstTurn r s =
     (case r of
        Throws \<Rightarrow> (finallyBlock s, Caught)
      | Returns post \<Rightarrow> buildPrompt isFirstTurn (lockPost post s))"

text \<open>From \<^verbatim>\<open>// Add cleaned response to history\<close> to the end of the function.\<close>

definition emitTurn ::
  "Persona \<Rightarrow> string \<Rightarrow> MoltbookPost option \<Rightarrow> ConversationState \<Rightarrow> ConversationState" where
  "emitTurn persona cleanText newPostForClient s =
     (let s1 = (if cleanText \<noteq> [] \<and> length cleanText > 0
                then s\<lparr>history := history s
                        @ [\<lparr>entrySpeaker = name persona, entryText = cleanText\<rparr>]\<rparr>
                else s);
          s2 = s1\<lparr>turnCount := turnCount s1 + 1\<rparr>;
          s3 = s2\<lparr>pendingResponse := Some
                  \<lparr>speaker = currentSpeaker s2, speakerName = name persona,
                   lineText = cleanText, turnNumber = turnCount s2,
                   newPost = newPostForClient\<rparr>\<rparr>;
          s4 = s3\<lparr>currentSpeaker := (if currentSpeaker s3 = boss then girl else boss)\<rparr>;
          s5 = (if length (history s4) > 40
                then s4\<lparr>history := sliceLast 40 (history s4)\<rparr> else s4)
      in finallyBlock s5)"

text \<open>\<^verbatim>\<open>advancePost\<close>, before and after its \<^verbatim>\<open>await\<close>.\<close>

definition advancePostBegin :: "ConversationState \<Rightarrow> ConversationState" where
  "advancePostBegin s = s\<lparr>previousPost := lockedPost s, postLocked := False\<rparr>"

definition advancePostEnd ::
  "int \<Rightarrow> MoltbookPost option \<Rightarrow> ConversationState \<Rightarrow> ConversationState" where
  "advancePostEnd now fetched s =
     (let s1 = resetPostTimer now s
      in case fetched of
           Some p \<Rightarrow> (lockPost (Some p) s1)\<lparr>postJustChanged := True\<rparr>
         | None \<Rightarrow> s1)"

text \<open>Steps 5 and 6, when the backend call has settled; \<open>now\<close> is \<^verbatim>\<open>Date.now()\<close>.\<close>

definition afterAI ::
  "int \<Rightarrow> bool \<Rightarrow> MoltbookPost option \<Rightarrow> Persona \<Rightarrow> string outcome
     \<Rightarrow> ConversationState \<Rightarrow> ConversationState \<times> gen_progress" where
  "afterAI now isFirstTurn postForAI persona r s =
     (case r of
        Throws \<Rightarrow> (finallyBlock s, Caught)
      | Returns rawResponse \<Rightarrow>
          (let cleanText = cleanResponse rawResponse
           in if isFirstTurn then (emitTurn persona cleanText postForAI s, Completed)
              else if isPostTimedOut now s then
                (advancePostBegin s, Suspended (AwaitRefresh postForAI persona cleanText))
              else (emitTurn persona cleanText None s, Completed)))"

definition afterRefresh ::
  "int \<Rightarrow> Persona \<Rightarrow> string \<Rightarrow> MoltbookPost option outcome
     \<Rightarrow> ConversationState \<Rightarrow> ConversationState \<times> gen_progress" where
  "afterRefresh now persona cleanText r s =
     (case r of
        Throws \<Rightarrow> (finallyBlock s, Caught)
      | Returns newPostForClient \<Rightarrow>
          (emitTurn persona cleanText newPostForClient (advancePostEnd now newPostForClient s),
           Completed))"

subsection \<open>A whole cycle with nothing interleaved\<close>

text \<open>The replies the collaborators would give during one cycle, and the clock when
  the backend and the refresh settle. A reply is only read if the cycle gets to that
  call.\<close>

record cycle_env =
  latestPostReply :: "MoltbookPost option outcome"
  aiReply :: "string outcome"
  aiTime :: int
  refreshReply :: "MoltbookPost option outcome"
  refreshTime :: int

definition runRefresh ::
  "cycle_env \<Rightarrow> ConversationState \<times> gen_progress \<Rightarrow> ConversationState \<times> gen_progress" where
  "runRefresh env x =
     (case x of
        (s, Suspended (AwaitRefresh postForAI persona cleanText)) \<Rightarrow>
          afterRefresh (refreshTime env) persona cleanText (refreshReply env) s
      | _ \<Rightarrow> x)"

definition runAI ::
  "cycle_env \<Rightarrow> ConversationState \<times> gen_progress \<Rightarrow> ConversationState \<times> gen_progress" where
  "runAI env x =
     (case x of
        (s, Suspended (AwaitAI isFirstTurn postForAI persona h c)) \<Rightarrow>
          runRefresh env (afterAI (aiTime env) isFirstTurn postForAI persona (aiReply env) s)
      | _ \<Rightarrow> x)"

definition runLatestPost ::
  "cycle_env \<Rightarrow> ConversationState \<times> gen_progress \<Rightarrow> ConversationState \<times> gen_progress" where
  "runLatestPost env x =
     (case x of
        (s, Suspended (AwaitLatestPost isFirstTurn)) \<Rightarrow>
          runAI env (afterLatestPost isFirstTurn (latestPostReply env) s)
      | _ \<Rightarrow> runAI env x)"

definition generateNextResponse ::
  "cycle_env \<Rightarrow> ConversationState \<Rightarrow> ConversationState \<times> gen_progress" where
  "generateNextResponse env s = runLatestPost env (beginGeneration s)"

subsection \<open>The service as a transition system\<close>

text \<open>
  Calls of the service interleave at the await points only (one event loop). A
  configuration is the state of the service, the calls that are suspended, and the
  answers given to \<^verbatim>\<open>getNextDialogue\<close> so far, oldest first. A suspended call is
  \<^item> \<open>Gen g\<close>: a generation nobody awaits (\<^verbatim>\<open>this.generateNextResponse()\<close> without
    \<^verbatim>\<open>await\<close>);
  \<^item> \<open>Start\<close>: \<^verbatim>\<open>startConversation\<close> at \<^verbatim>\<open>await this.moltbookService.getLatestPost()\<close>;
  \<^item> \<open>PollStart\<close>: \<^verbatim>\<open>getNextDialogue\<close> at \<^verbatim>\<open>await this.startConversation()\<close>, which is
    itself at its \<^verbatim>\<open>await\<close>;
  \<^item> \<open>PollAfterStart\<close>: the same call when \<^verbatim>\<open>startConversation\<close> has returned and the
    rest of \<^verbatim>\<open>getNextDialogue\<close> is queued;
  \<^item> \<open>PollGen g\<close>: \<^verbatim>\<open>getNextDialogue\<close> at \<^verbatim>\<open>await this.generateNextResponse()\<close>, the
    generation being suspended at \<open>g\<close>;
  \<^item> \<open>PollAfterGen\<close>: the same call when that generation has ended and the rest of
    \<^verbatim>\<open>getNextDialogue\<close> is queued.
  The continuation of an \<^verbatim>\<open>await\<close> is a job of its own: the model lets any other event
  come before it, which covers every order the event loop can choose.
\<close>

datatype task = Gen gen_task | Start | PollStart | PollAfterStart | PollGen gen_task | PollAfterGen

datatype poll_result = Line DialogueLine | Waiting | Failed

datatype poll_progress = Answered poll_result | Awaiting task

record config =
  st :: ConversationState
  tasks :: "task list"
  responses :: "poll_result list"

datatype reply = PostReply "MoltbookPost option outcome" | TextReply "string outcome"

text \<open>An event is a call from outside, the reply to the call that the suspended task
  number \<open>i\<close> awaits, or the queued continuation of task number \<open>i\<close>; \<open>now\<close> is the
  clock during the step. An event that does not fit the task, or names a task that
  does not exist, changes nothing.\<close>

datatype event =
    Poll int
  | StartConv int
  | Stop
  | Resume nat reply int
  | Continue nat

fun resumeGen ::
  "int \<Rightarrow> gen_task \<Rightarrow> reply \<Rightarrow> ConversationState \<Rightarrow> (ConversationState \<times> gen_progress) option" where
  "resumeGen now (AwaitLatestPost isFirstTurn) (PostReply r) s =
     Some (afterLatestPost isFirstTurn r s)"
| "resumeGen now (AwaitAI isFirstTurn postForAI persona h c) (TextReply r) s =
     Some (afterAI now isFirstTurn postForAI persona r s)"
| "resumeGen now (AwaitRefresh postForAI persona cleanText) (PostReply r) s =
     Some (afterRefresh now persona cleanText r s)"
| "resumeGen now g r s = None"

text \<open>A generation that was called without \<^verbatim>\<open>await\<close> and is now suspended.\<close>

fun spawn :: "gen_progress \<Rightarrow> task list" where
  "spawn (Suspended g) = [Gen g]"
| "spawn pr = []"

text \<open>\<^verbatim>\<open>startConversation\<close>, before and after its \<^verbatim>\<open>await\<close>.\<close>

definition startConversationBegin :: "int \<Rightarrow> ConversationState" where
  "startConversationBegin now = resetPostTimer now (getInitialState\<lparr>isActive := True\<rparr>)"

definition startConversationEnd ::
  "MoltbookPost option \<Rightarrow> ConversationState \<Rightarrow> ConversationState \<times> task list" where
  "startConversationEnd initialPost s =
     (case beginGeneration (lockPost initialPost s) of (s', pr) \<Rightarrow> (s', spawn pr))"

text \<open>The two places of \<^verbatim>\<open>getNextDialogue\<close> that hand out the pending response and
  start the next generation.\<close>

definition takePending ::
  "ConversationState \<Rightarrow> (ConversationState \<times> task list \<times> poll_result) option" where
  "takePending s =
     (case pendingResponse s of
        None \<Rightarrow> None
      | Some response \<Rightarrow>
          (case beginGeneration (s\<lparr>pendingResponse := None\<rparr>) of
             (s', pr) \<Rightarrow> Some (s', spawn pr, Line response)))"

text \<open>\<^verbatim>\<open>getNextDialogue\<close> after \<^verbatim>\<open>await this.generateNextResponse()\<close>.\<close>

definition pollAfterGen :: "ConversationState \<Rightarrow> ConversationState \<times> task list \<times> poll_result" where
  "pollAfterGen s = (case takePending s of Some x \<Rightarrow> x | None \<Rightarrow> (s, [], Waiting))"

text \<open>\<^verbatim>\<open>getNextDialogue\<close> from \<^verbatim>\<open>if (this.state.pendingResponse)\<close> up to its answer or
  to \<^verbatim>\<open>await this.generateNextResponse()\<close>.\<close>

definition pollBody :: "ConversationState \<Rightarrow> ConversationState \<times> task list \<times> poll_progress" where
  "pollBody s =
     (case takePending s of
        Some (s', sp, r) \<Rightarrow> (s', sp, Answered r)
      | None \<Rightarrow>
          if isGenerating s then (s, [], Answered Waiting)
          else (case beginGeneration s of
                  (s', Suspended g) \<Rightarrow> (s', [], Awaiting (PollGen g))
                | (s', _) \<Rightarrow> (s', [], Awaiting PollAfterGen)))"

definition replaceAt :: "nat \<Rightarrow> 'a list \<Rightarrow> 'a list \<Rightarrow> 'a list" where
  "replaceAt i xs ys = take i xs @ ys @ drop (Suc i) xs"

definition applyPoll ::
  "task list \<Rightarrow> ConversationState \<times> task list \<times> poll_progress \<Rightarrow> config \<Rightarrow> config" where
  "applyPoll others x c =
     (case x of
        (s', sp, Answered r) \<Rightarrow>
          c\<lparr>st := s', tasks := others @ sp, responses := responses c @ [r]\<rparr>
      | (s', sp, Awaiting t) \<Rightarrow>
          c\<lparr>st := s', tasks := others @ sp @ [t]\<rparr>)"

text \<open>The reply that task \<open>i\<close> awaits has come.\<close>

definition resumeTask :: "nat \<Rightarrow> reply \<Rightarrow> int \<Rightarrow> config \<Rightarrow> config" where
  "resumeTask i r now c =
     (case tasks c ! i of
        Gen g \<Rightarrow>
          (case resumeGen now g r (st c) of
             None \<Rightarrow> c
           | Some (s', Suspended g') \<Rightarrow> c\<lparr>st := s', tasks := replaceAt i (tasks c) [Gen g']\<rparr>
           | Some (s', _) \<Rightarrow> c\<lparr>st := s', tasks := replaceAt i (tasks c) []\<rparr>)
      | Start \<Rightarrow>
          (case r of
             PostReply (Returns initialPost) \<Rightarrow>
               (case startConversationEnd initialPost (st c) of
                  (s', sp) \<Rightarrow> c\<lparr>st := s', tasks := replaceAt i (tasks c) [] @ sp\<rparr>)
           | PostReply Throws \<Rightarrow> c\<lparr>tasks := replaceAt i (tasks c) []\<rparr>
           | TextReply t \<Rightarrow> c)
      | PollStart \<Rightarrow>
          (case r of
             PostReply (Returns initialPost) \<Rightarrow>
               (case startConversationEnd initialPost (st c) of
                  (s', sp) \<Rightarrow>
                    c\<lparr>st := s', tasks := replaceAt i (tasks c) [PollAfterStart] @ sp\<rparr>)
           | PostReply Throws \<Rightarrow>
               c\<lparr>tasks := replaceAt i (tasks c) [], responses := responses c @ [Failed]\<rparr>
           | TextReply t \<Rightarrow> c)
      | PollGen g \<Rightarrow>
          (case resumeGen now g r (st c) of
             None \<Rightarrow> c
           | Some (s', Suspended g') \<Rightarrow> c\<lparr>st := s', tasks := replaceAt i (tasks c) [PollGen g']\<rparr>
           | Some (s', _) \<Rightarrow> c\<lparr>st := s', tasks := replaceAt i (tasks c) [PollAfterGen]\<rparr>)
      | PollAfterStart \<Rightarrow> c
      | PollAfterGen \<Rightarrow> c)"

text \<open>The queued continuation of task \<open>i\<close> runs.\<close>

definition continueTask :: "nat \<Rightarrow> config \<Rightarrow> config" where
  "continueTask i c =
     (case tasks c ! i of
        PollAfterStart \<Rightarrow> applyPoll (replaceAt i (tasks c) []) (pollBody (st c)) c
      | PollAfterGen \<Rightarrow>
          (case pollAfterGen (st c) of
             (s', sp, res) \<Rightarrow>
               c\<lparr>st := s', tasks := replaceAt i (tasks c) [] @ sp,
                 responses := responses c @ [res]\<rparr>)
      | _ \<Rightarrow> c)"

fun step :: "event \<Rightarrow> config \<Rightarrow> config" where
  "step (Poll now) c =
     (if \<not> isActive (st c)
      then c\<lparr>st := startConversationBegin now, tasks := tasks c @ [PollStart]\<rparr>
      else applyPoll (tasks c) (pollBody (st c)) c)"
| "step (StartConv now) c =
     c\<lparr>st := startConversationBegin now, tasks := tasks c @ [Start]\<rparr>"
| "step Stop c = c\<lparr>st := (st c)\<lparr>isActive := False\<rparr>\<rparr>"
| "step (Resume i r now) c =
     (if i < length (tasks c) then resumeTask i r now c else c)"
| "step (Continue i) c =
     (if i < length (tasks c) then continueTask i c else c)"

text \<open>A trace is run from the left.\<close>

fun run :: "event list \<Rightarrow> config \<Rightarrow> config" where
  "run [] c = c"
| "run (e # es) c = run es (step e c)"

text \<open>The service as its constructor leaves it.\<close>

definition initialConfig :: config where
  "initialConfig = \<lparr>st = getInitialState, tasks = [], responses = []\<rparr>"

text \<open>The service when a call of \<^verbatim>\<open>startConversation\<close>, made at time \<open>t0\<close> on a fresh
  service, has returned at time \<open>t1\<close>, the context source having answered
  \<open>initialPost\<close>.\<close>

definition started :: "int \<Rightarrow> MoltbookPost option \<Rightarrow> int \<Rightarrow> config" where
  "started t0 initialPost t1 =
     run [StartConv t0, Resume 0 (PostReply (Returns initialPost)) t1] initialConfig"

text \<open>The turns handed out so far, and the generations in flight.\<close>

fun delivered :: "poll_result list \<Rightarrow> DialogueLine list" where
  "delivered [] = []"
| "delivered (Line d # rs) = d # delivered rs"
| "delivered (r # rs) = delivered rs"

fun inFlight :: "task list \<Rightarrow> gen_task list" where
  "inFlight [] = []"
| "inFlight (Gen g # ts) = g # inFlight ts"
| "inFlight (PollGen g # ts) = g # inFlight ts"
| "inFlight (t # ts) = inFlight ts"

text \<open>Traces without a restart: calls of \<^verbatim>\<open>getNextDialogue\<close>, replies and
  continuations, but no call of \<^verbatim>\<open>startConversation\<close> or \<^verbatim>\<open>stop\<close>.\<close>

fun isPollOrProgress :: "event \<Rightarrow> bool" where
  "isPollOrProgress (StartConv now) = False"
| "isPollOrProgress Stop = False"
| "isPollOrProgress e = True"

text \<open>What a suspended generation built its prompt from, once it has built it.\<close>

fun promptPost :: "gen_task \<Rightarrow> MoltbookPost option" where
  "promptPost (AwaitLatestPost isFirstTurn) = None"
| "promptPost (AwaitAI isFirstTurn postForAI persona h c) = postForAI"
| "promptPost (AwaitRefresh postForAI persona cleanText) = postForAI"

fun hasPrompt :: "gen_task \<Rightarrow> bool" where
  "hasPrompt (AwaitLatestPost isFirstTurn) = False"
| "hasPrompt g = True"

section \<open>Concrete states and replies\<close>

text \<open>A state whose history holds 40 entries.\<close>

definition fullHistoryState :: ConversationState where
  "fullHistoryState =
     getInitialState\<lparr>history := replicate 40 \<lparr>entrySpeaker = ''Agent 1'', entryText = ''x''\<rparr>,
                      turnCount := 40, isActive := True\<rparr>"

text \<open>Two feed items.\<close>

definition postX :: MoltbookPost where
  "postX = \<lparr>votes = 12, username = ''molty'', timestamp = ''recently'', title = ''X'',
             content = ''first item'', comments = 3, url = ''https://www.moltbook.com/post/1'',
             community = ''general''\<rparr>"

definition postY :: MoltbookPost where
  "postY = \<lparr>votes = 7, username = ''shelly'', timestamp = ''recently'', title = ''Y'',
             content = ''second item'', comments = 0, url = ''https://www.moltbook.com/post/2'',
             community = ''ponderings''\<rparr>"

text \<open>The state that \<^verbatim>\<open>startConversation\<close> sets up at time 1000, before any post is
  locked.\<close>

definition freshState :: ConversationState where
  "freshState = startConversationBegin 1000"

text \<open>The state after one delivered turn about \<open>postX\<close>, shown since time 1000.\<close>

definition secondTurnState :: ConversationState where
  "secondTurnState =
     \<lparr>history = [\<lparr>entrySpeaker = ''Agent 1'', entryText = ''Hello there.''\<rparr>],
      currentSpeaker = girl, turnCount = 1, isActive = True, pendingResponse = None,
      isGenerating = False, postShownAt = Some 1000, lockedPost = Some postX,
      postLocked = True, previousPost = None, postJustChanged = False\<rparr>"

text \<open>A context source with no item at all.\<close>

definition noPostEnv :: cycle_env where
  "noPostEnv = \<lparr>latestPostReply = Returns None, aiReply = Returns ''Hello there.'',
                aiTime = 2000, refreshReply = Returns None, refreshTime = 2000\<rparr>"

text \<open>A backend that answers with the control token only.\<close>

definition passEnv :: cycle_env where
  "passEnv = \<lparr>latestPostReply = Returns (Some postX), aiReply = Returns ''[NEXT_POST]'',
              aiTime = 5000, refreshReply = Returns (Some postY), refreshTime = 5001\<rparr>"

text \<open>A backend reply that comes 120 seconds after the post was shown.\<close>

definition timeoutEnv :: cycle_env where
  "timeoutEnv = \<lparr>latestPostReply = Returns (Some postX), aiReply = Returns ''Hello there.'',
                 aiTime = 121000, refreshReply = Returns (Some postY), refreshTime = 121005\<rparr>"


text \<open>A backend call that throws.\<close>

definition throwingEnv :: cycle_env where
  "throwingEnv = \<lparr>latestPostReply = Returns (Some postX), aiReply = Throws,
                  aiTime = 5000, refreshReply = Returns (Some postY), refreshTime = 5001\<rparr>"

text \<open>Replies that stand for a rejected promise.\<close>

fun isThrow :: "reply \<Rightarrow> bool" where
  "isThrow (PostReply Throws) = True"
| "isThrow (TextReply Throws) = True"
| "isThrow r = False"

text \<open>A conversation started at time 1000 with \<open>postX\<close>, and a trace of it: two turns
  are generated and polled, the second after the timeout; the third generation fails
  with an exception, and the poll after that awaits a generation of its own.\<close>

definition demoStart :: config where
  "demoStart = started 1000 (Some postX) 1001"

definition demoTrace :: "event list" where
  "demoTrace =
     [Poll 1500,
      Resume 0 (TextReply (Returns ''Hello there.'')) 2000,
      Poll 2500,
      Poll 2600,
      Resume 0 (TextReply (Returns ''Hello there.'')) 121500,
      Resume 0 (PostReply (Returns (Some postY))) 121600,
      Poll 122000,
      Resume 0 (TextReply Throws) 123000,
      Poll 124000,
      Resume 0 (TextReply (Returns ''Hello there.'')) 125000,
      Continue 0]"

text \<open>The second turn's generation of \<open>secondTurnState\<close>, suspended at the backend
  call.\<close>

definition awaitingState :: ConversationState where
  "awaitingState = fst (beginGeneration secondTurnState)"

definition awaitingTask :: gen_task where
  "awaitingTask =
     (case snd (beginGeneration secondTurnState) of
        Suspended g \<Rightarrow> g
      | _ \<Rightarrow> AwaitLatestPost False)"

text \<open>The started conversation after \<^verbatim>\<open>stop()\<close>, and a poll of it that runs to its
  answer with nothing interleaved.\<close>

definition stoppedConfig :: config where
  "stoppedConfig = step Stop demoStart"

definition restartTrace :: "event list" where
  "restartTrace =
     [Poll 5000, Resume 1 (PostReply (Returns (Some postY))) 5001, Continue 1]"

text \<open>Two polls of a fresh service, the second made while the first awaits the context
  source, whose answer to the second comes first; the backend answers at once.\<close>

definition raceTrace :: "event list" where
  "raceTrace =
     [Poll 1000,
      Poll 1001,
      Resume 1 (PostReply (Returns (Some postX))) 1100,
      Resume 1 (TextReply (Returns ''Hello there.'')) 1101,
      Continue 1,
      Resume 1 (TextReply (Returns ''Hello there.'')) 1102,
      Resume 0 (PostReply (Returns (Some postX))) 1200,
      Resume 1 (TextReply (Returns ''Hello there.'')) 1201,
      Continue 0]"

text \<open>The first seven events of \<open>raceTrace\<close>, up to the continuation of
  \<^verbatim>\<open>startConversation\<close>, and the first eight, up to the end of the generation that
  this continuation starts.\<close>

definition raceOverlap :: "event list" where
  "raceOverlap =
     [Poll 1000,
      Poll 1001,
      Resume 1 (PostReply (Returns (Some postX))) 1100,
      Resume 1 (TextReply (Returns ''Hello there.'')) 1101,
      Continue 1,
      Resume 1 (TextReply (Returns ''Hello there.'')) 1102,
      Resume 0 (PostReply (Returns (Some postX))) 1200]"

definition raceOverwrite :: "event list" where
  "raceOverwrite = raceOverlap @ [Resume 1 (TextReply (Returns ''Hello there.'')) 1201]"

text \<open>A conversation is started, stopped while its first generation awaits the
  backend, and polled; the context source answers the \<^verbatim>\<open>startConversation\<close> of the
  poll.\<close>

definition stopPollTrace :: "event list" where
  "stopPollTrace =
     [StartConv 1000,
      Resume 0 (PostReply (Returns (Some postX))) 1001,
      Stop,
      Poll 5000,
      Resume 1 (PostReply (Returns (Some postY))) 5001]"

text \<open>\<^verbatim>\<open>startConversation\<close> is called a second time while the first generation awaits
  the backend; the second call returns, the backend answers the first generation and
  then the second, and a poll follows.\<close>

definition secondStartTrace :: "event list" where
  "secondStartTrace =
     [StartConv 1000,
      Resume 0 (PostReply (Returns (Some postX))) 1001,
      StartConv 2000,
      Resume 1 (PostReply (Returns (Some postY))) 2001,
      Resume 0 (TextReply (Returns ''Hello there.'')) 2002,
      Resume 0 (TextReply (Returns ''Hello there.'')) 2003,
      Poll 3000]"




section \<open>Invariants of the transition system\<close>

text \<open>
  \<^item> \<open>flightOk\<close>: the flag \<open>isGenerating\<close> is set exactly when one generation is in
    flight, and there is never more than one.
  \<^item> \<open>stateOk\<close>, \<open>logOk\<close>: the pending response carries the turn count as its number,
    the turns handed out are numbered from 1 without a gap, and the speaker of turn
    \<open>n\<close> is \<open>speakerFor n\<close>.
  \<^item> \<open>promptOk\<close>: a generation in flight that has built its prompt built it from the
    post that is locked now.
  \<^item> \<open>noRestart\<close>: no call of \<^verbatim>\<open>startConversation\<close> is suspended.
\<close>

definition speakerFor :: "nat \<Rightarrow> speaker_id" where
  "speakerFor n = (if odd n then boss else girl)"

fun numbered :: "nat \<Rightarrow> DialogueLine list \<Rightarrow> bool" where
  "numbered k [] = True"
| "numbered k (d # ds) =
     (turnNumber d = k \<and> speaker d = speakerFor k \<and> numbered (Suc k) ds)"

definition flightOk :: "ConversationState \<Rightarrow> task list \<Rightarrow> bool" where
  "flightOk s ts \<longleftrightarrow> length (inFlight ts) = (if isGenerating s then 1 else 0)"

definition flightInv :: "config \<Rightarrow> bool" where
  "flightInv c \<longleftrightarrow>
     flightOk (st c) (tasks c) \<and> (\<not> isActive (st c) \<longrightarrow> tasks c = [])"

definition stateOk :: "ConversationState \<Rightarrow> bool" where
  "stateOk s \<longleftrightarrow>
     (\<forall>d. pendingResponse s = Some d \<longrightarrow>
        turnNumber d = turnCount s \<and> speaker d = speakerFor (turnCount s) \<and> 0 < turnCount s)
     \<and> currentSpeaker s = speakerFor (Suc (turnCount s))"

definition logOk :: "ConversationState \<Rightarrow> poll_result list \<Rightarrow> bool" where
  "logOk s rs \<longleftrightarrow>
     numbered 1 (delivered rs)
     \<and> length (delivered rs) = turnCount s - (if pendingResponse s = None then 0 else 1)"

definition schedOk :: "ConversationState \<Rightarrow> poll_result list \<Rightarrow> bool" where
  "schedOk s rs \<longleftrightarrow> stateOk s \<and> logOk s rs"

definition promptOk :: "ConversationState \<Rightarrow> task list \<Rightarrow> bool" where
  "promptOk s ts \<longleftrightarrow> (\<forall>g\<in>set (inFlight ts). hasPrompt g \<longrightarrow> promptPost g = lockedPost s)"

definition noRestart :: "task list \<Rightarrow> bool" where
  "noRestart ts \<longleftrightarrow> Start \<notin> set ts \<and> PollStart \<notin> set ts"

definition restOk :: "ConversationState \<Rightarrow> task list \<Rightarrow> poll_result list \<Rightarrow> bool" where
  "restOk s ts rs \<longleftrightarrow>
     noRestart ts \<and> schedOk s rs \<and> (isGenerating s \<longrightarrow> pendingResponse s = None)
     \<and> promptOk s ts"

definition inv :: "config \<Rightarrow> bool" where
  "inv c \<longleftrightarrow>
     isActive (st c) \<and> flightOk (st c) (tasks c) \<and> restOk (st c) (tasks c) (responses c)"

text \<open>The fields that only the end of a cycle, the handing out of a turn and a restart
  change.\<close>

definition core :: "ConversationState \<Rightarrow> nat \<times> DialogueLine option \<times> speaker_id \<times> bool" where
  "core s = (turnCount s, pendingResponse s, currentSpeaker s, isActive s)"

text \<open>The pending response \<open>d\<close> of \<open>s\<close> was handed out, leaving \<open>s'\<close> and the spawned
  tasks \<open>sp\<close>.\<close>

definition tookFrom ::
  "ConversationState \<Rightarrow> DialogueLine \<Rightarrow> ConversationState \<Rightarrow> task list \<Rightarrow> bool" where
  "tookFrom s d s' sp \<longleftrightarrow>
     pendingResponse s = Some d \<and> pendingResponse s' = None \<and> turnCount s' = turnCount s
     \<and> currentSpeaker s' = currentSpeaker s \<and> isActive s' = isActive s
     \<and> isGenerating s' \<and> lockedPost s' = lockedPost s
     \<and> (if isGenerating s then sp = []
        else (\<exists>g. sp = [Gen g] \<and> (hasPrompt g \<longrightarrow> promptPost g = lockedPost s')))"


section \<open>Effects of the parts of a generation cycle\<close>

lemmas cycle_defs = generateNextResponse_def runLatestPost_def runAI_def runRefresh_def
  beginGeneration_def buildPrompt_def afterLatestPost_def afterAI_def afterRefresh_def
  emitTurn_def advancePostBegin_def advancePostEnd_def finallyBlock_def lockPost_def
  resetPostTimer_def getLockedPost_def

lemma emitTurn_fields:
  "pendingResponse (emitTurn persona cleanText np s) =
     Some \<lparr>speaker = currentSpeaker s, speakerName = name persona, lineText = cleanText,
           turnNumber = turnCount s + 1, newPost = np\<rparr>"
  "turnCount (emitTurn persona cleanText np s) = turnCount s + 1"
  "isGenerating (emitTurn persona cleanText np s) = False"
  "currentSpeaker (emitTurn persona cleanText np s) = (if currentSpeaker s = boss then girl else boss)"
  "lockedPost (emitTurn persona cleanText np s) = lockedPost s"
  "isActive (emitTurn persona cleanText np s) = isActive s"
  "cleanText = [] \<Longrightarrow> history (emitTurn persona cleanText np s) = sliceLast 40 (history s)"
  by (simp_all add: emitTurn_def finallyBlock_def sliceLast_def Let_def)

lemma clean_pass: "cleanResponse ''[NEXT_POST]'' = []"
  by (simp add: cleanResponse_def trim_def isSpace_def lowerCode_def)

lemma clean_hello: "cleanResponse ''Hello there.'' = ''Hello there.''"
  by (simp add: cleanResponse_def trim_def isSpace_def lowerCode_def)

text \<open>How a cycle that completes was made.\<close>

lemma completed_cases:
  assumes "generateNextResponse env s = (s', Completed)"
  obtains raw np s0 where "aiReply env = Returns raw"
    "s' = emitTurn (getCurrentPersona s) (cleanResponse raw) np s0"
    "turnCount s0 = turnCount s" "currentSpeaker s0 = currentSpeaker s"
    "history s0 = history s" "\<not> isGenerating s"
  using assms
  by (auto simp add: generateNextResponse_def runLatestPost_def runAI_def runRefresh_def
      beginGeneration_def buildPrompt_def afterLatestPost_def afterAI_def afterRefresh_def
      advancePostBegin_def advancePostEnd_def finallyBlock_def lockPost_def
      resetPostTimer_def getLockedPost_def getCurrentPersona_def Let_def
      split: if_splits outcome.splits option.splits)


lemma caught_cases:
  assumes "generateNextResponse env s = (s', Caught)"
  shows "\<not> isGenerating s' \<and> pendingResponse s' = pendingResponse s
         \<and> turnCount s' = turnCount s \<and> \<not> isGenerating s"
  using assms
  by (auto simp add: generateNextResponse_def runLatestPost_def runAI_def runRefresh_def
      beginGeneration_def buildPrompt_def afterLatestPost_def afterAI_def afterRefresh_def
      advancePostBegin_def finallyBlock_def lockPost_def
      getLockedPost_def Let_def
      split: if_splits outcome.splits option.splits)




lemma resume_throw:
  assumes "resumeGen now g r s = Some (s', pr)" and "isThrow r"
  shows "s' = finallyBlock s \<and> pr = Caught"
  using assms
  by (cases "(now, g, r, s)" rule: resumeGen.cases;
      cases r rule: isThrow.cases;
      simp add: afterLatestPost_def afterAI_def afterRefresh_def)+

lemma retry_after_finally:
  "\<not> isGenerating s' \<Longrightarrow> \<exists>s'' g'. beginGeneration s' = (s'', Suspended g')"
  by (simp add: beginGeneration_def buildPrompt_def Let_def)

lemma passEnv_completed:
  "generateNextResponse passEnv secondTurnState
     = (fst (generateNextResponse passEnv secondTurnState), Completed)"
  by (simp add: prod_eq_iff passEnv_def secondTurnState_def cycle_defs clean_pass
      isPostTimedOut_def POST_TIMEOUT_MS_def Let_def)

lemma awaiting_unfold:
  "\<exists>h c. awaitingTask = AwaitAI False (Some postX) GIRL_PERSONA h c"
  by (simp add: awaitingTask_def beginGeneration_def buildPrompt_def secondTurnState_def
      getCurrentPersona_def getLockedPost_def Let_def)

lemma awaiting_busy: "isGenerating awaitingState"
  by (simp add: awaitingState_def secondTurnState_def beginGeneration_def buildPrompt_def Let_def)



section \<open>Invariants: proofs\<close>

subsection \<open>Task lists\<close>

lemma inFlight_append: "inFlight (xs @ ys) = inFlight xs @ inFlight ys"
  by (induction xs rule: inFlight.induct) simp_all

lemma delivered_append: "delivered (rs @ rs') = delivered rs @ delivered rs'"
  by (induction rs rule: delivered.induct) simp_all

lemma numbered_append:
  "numbered k (xs @ ys) = (numbered k xs \<and> numbered (k + length xs) ys)"
  by (induction xs arbitrary: k) auto

lemma replaceAt_inFlight:
  assumes "i < length ts"
  shows "inFlight ts = inFlight (take i ts) @ inFlight [ts ! i] @ inFlight (drop (Suc i) ts)"
    and "inFlight (replaceAt i ts ys)
           = inFlight (take i ts) @ inFlight ys @ inFlight (drop (Suc i) ts)"
proof -
  have "ts = take i ts @ [ts ! i] @ drop (Suc i) ts"
    using assms by (simp add: id_take_nth_drop)
  then have "inFlight ts = inFlight (take i ts @ [ts ! i] @ drop (Suc i) ts)" by simp
  then show "inFlight ts = inFlight (take i ts) @ inFlight [ts ! i] @ inFlight (drop (Suc i) ts)"
    by (simp only: inFlight_append)
  show "inFlight (replaceAt i ts ys)
           = inFlight (take i ts) @ inFlight ys @ inFlight (drop (Suc i) ts)"
    by (simp add: replaceAt_def inFlight_append)
qed

text \<open>With at most one generation in flight, replacing its task replaces the
  generation.\<close>

lemma replaceAt_only:
  assumes "i < length ts" and "length (inFlight ts) \<le> 1" and "inFlight [ts ! i] = [g]"
  shows "inFlight ts = [g]" and "inFlight (replaceAt i ts ys) = inFlight ys"
proof -
  from replaceAt_inFlight(1) [OF assms(1)] assms(2,3)
  have e: "inFlight (take i ts) = [] \<and> inFlight (drop (Suc i) ts) = []"
    by (cases "inFlight (take i ts)"; cases "inFlight (drop (Suc i) ts)") simp_all
  with replaceAt_inFlight(1) [OF assms(1)] assms(3) show "inFlight ts = [g]" by simp
  from e replaceAt_inFlight(2) [OF assms(1), of ys]
  show "inFlight (replaceAt i ts ys) = inFlight ys" by simp
qed

text \<open>Replacing a task that holds no generation by tasks that hold none.\<close>

lemma replaceAt_other:
  assumes "i < length ts" and "inFlight [ts ! i] = []" and "inFlight ys = []"
  shows "inFlight (replaceAt i ts ys) = inFlight ts"
  using replaceAt_inFlight(1) [OF assms(1)] replaceAt_inFlight(2) [OF assms(1), of ys] assms(2,3)
  by simp

lemma noRestart_append: "noRestart (xs @ ys) = (noRestart xs \<and> noRestart ys)"
  by (auto simp add: noRestart_def)

lemma set_replaceAt: "set (replaceAt i ts ys) \<subseteq> set ts \<union> set ys"
proof -
  have "set (take i ts) \<subseteq> set ts" by (rule set_take_subset)
  moreover have "set (drop (Suc i) ts) \<subseteq> set ts" by (rule set_drop_subset)
  ultimately show ?thesis unfolding replaceAt_def by auto
qed

lemma noRestart_replaceAt: "noRestart ts \<Longrightarrow> noRestart ys \<Longrightarrow> noRestart (replaceAt i ts ys)"
  using set_replaceAt [of i ts ys] unfolding noRestart_def by blast

lemma noRestart_nth:
  assumes "noRestart ts" and "i < length ts"
  shows "ts ! i \<noteq> Start \<and> ts ! i \<noteq> PollStart"
proof -
  from assms(2) have "ts ! i \<in> set ts" by (rule nth_mem)
  with assms(1) show ?thesis unfolding noRestart_def by metis
qed

lemma promptOk_none: "inFlight ts = [] \<Longrightarrow> promptOk s ts"
  by (simp add: promptOk_def)

lemma promptOk_one:
  "inFlight ts = [g] \<Longrightarrow> promptOk s ts = (hasPrompt g \<longrightarrow> promptPost g = lockedPost s)"
  by (simp add: promptOk_def)

lemma promptOk_append: "promptOk s (xs @ ys) = (promptOk s xs \<and> promptOk s ys)"
  by (auto simp add: promptOk_def inFlight_append)

lemma promptOk_lock: "lockedPost s' = lockedPost s \<Longrightarrow> promptOk s' ts = promptOk s ts"
  by (simp add: promptOk_def)

subsection \<open>The parts of a generation cycle\<close>

lemma stateOk_core: "core s' = core s \<Longrightarrow> stateOk s' = stateOk s"
  by (simp add: core_def stateOk_def)

lemma logOk_core: "core s' = core s \<Longrightarrow> logOk s' rs = logOk s rs"
  by (simp add: core_def logOk_def)

lemma schedOk_core: "core s' = core s \<Longrightarrow> schedOk s' rs = schedOk s rs"
  by (simp add: schedOk_def core_def stateOk_def logOk_def)

lemma speakerFor_flip:
  "(if speakerFor (Suc n) = boss then girl else boss) = speakerFor (Suc (Suc n))"
  by (simp add: speakerFor_def)

lemma begin_skipped: "isGenerating s \<Longrightarrow> beginGeneration s = (s, Skipped)"
  by (simp add: beginGeneration_def)

lemma begin_started:
  assumes "\<not> isGenerating s"
  obtains s' g where "beginGeneration s = (s', Suspended g)" "isGenerating s'"
    "core s' = core s" "lockedPost s' = lockedPost s"
    "hasPrompt g \<longrightarrow> promptPost g = lockedPost s'"
  using assms
  by (cases "lockedPost s")
     (auto simp add: beginGeneration_def buildPrompt_def core_def getLockedPost_def Let_def)

lemma lockPost_core:
  "core (lockPost p s) = core s" "isGenerating (lockPost p s) = isGenerating s"
  by (cases p; simp add: lockPost_def core_def)+

lemma afterLatestPost_returns:
  assumes "afterLatestPost ft (Returns post) s = (s', pr)"
  obtains g' where "pr = Suspended g'" "core s' = core s" "isGenerating s' = isGenerating s"
    "hasPrompt g'" "promptPost g' = lockedPost s'"
  using assms
  by (cases post)
     (auto simp add: afterLatestPost_def buildPrompt_def lockPost_def core_def
        getLockedPost_def Let_def)

lemma advancePostEnd_core: "core (advancePostEnd now np s) = core s"
  by (cases np) (simp_all add: advancePostEnd_def resetPostTimer_def lockPost_def core_def)

lemma advancePostBegin_core:
  "core (advancePostBegin s) = core s"
  "isGenerating (advancePostBegin s) = isGenerating s"
  "lockedPost (advancePostBegin s) = lockedPost s"
  by (simp_all add: advancePostBegin_def core_def)

text \<open>What a reply does to a suspended generation: the cycle is caught, completes with a
  turn, or is suspended again.\<close>

lemma resumeGen_cases [consumes 1, case_names Caught Completed Suspended]:
  assumes "resumeGen now g r s = Some (s', pr)"
  obtains "pr = Caught" "s' = finallyBlock s"
  | persona cleanText np s0 where "pr = Completed" "s' = emitTurn persona cleanText np s0"
      "core s0 = core s"
  | g' where "pr = Suspended g'" "core s' = core s" "isGenerating s' = isGenerating s"
      "hasPrompt g'"
      "if hasPrompt g then promptPost g' = promptPost g \<and> lockedPost s' = lockedPost s
       else promptPost g' = lockedPost s'"
proof (cases g)
  case (AwaitLatestPost ft)
  show ?thesis
  proof (cases r)
    case (PostReply o1)
    show ?thesis
    proof (cases o1)
      case (Returns post)
      with assms AwaitLatestPost PostReply
      have "afterLatestPost ft (Returns post) s = (s', pr)" by simp
      then obtain g' where "pr = Suspended g'" "core s' = core s"
        "isGenerating s' = isGenerating s" "hasPrompt g'" "promptPost g' = lockedPost s'"
        by (rule afterLatestPost_returns)
      then show ?thesis using that(3) [of g'] AwaitLatestPost by simp
    next
      case Throws
      with assms AwaitLatestPost PostReply show ?thesis
        using that(1) by (simp add: afterLatestPost_def)
    qed
  next
    case (TextReply o2)
    with assms AwaitLatestPost show ?thesis by simp
  qed
next
  case (AwaitAI ft pf persona h c)
  show ?thesis
  proof (cases r)
    case (PostReply o1)
    with assms AwaitAI show ?thesis by simp
  next
    case (TextReply o2)
    show ?thesis
    proof (cases o2)
      case (Returns raw)
      with assms AwaitAI TextReply
      have a: "afterAI now ft pf persona (Returns raw) s = (s', pr)" by simp
      show ?thesis
      proof (cases "\<not> ft \<and> isPostTimedOut now s")
        case True
        with a have "pr = Suspended (AwaitRefresh pf persona (cleanResponse raw))"
          and "s' = advancePostBegin s"
          by (auto simp add: afterAI_def Let_def)
        then show ?thesis
          using that(3) [of "AwaitRefresh pf persona (cleanResponse raw)"] AwaitAI
          by (simp add: advancePostBegin_core)
      next
        case False
        with a have "pr = Completed"
          and "s' = emitTurn persona (cleanResponse raw) (if ft then pf else None) s"
          by (auto simp add: afterAI_def Let_def split: if_splits)
        then show ?thesis using that(2) by blast
      qed
    next
      case Throws
      with assms AwaitAI TextReply show ?thesis
        using that(1) by (simp add: afterAI_def)
    qed
  qed
next
  case (AwaitRefresh pf persona ct)
  show ?thesis
  proof (cases r)
    case (PostReply o1)
    show ?thesis
    proof (cases o1)
      case (Returns np)
      with assms AwaitRefresh PostReply
      have "pr = Completed"
        and "s' = emitTurn persona ct np (advancePostEnd now np s)"
        by (simp_all add: afterRefresh_def)
      then show ?thesis using that(2) advancePostEnd_core by blast
    next
      case Throws
      with assms AwaitRefresh PostReply show ?thesis
        using that(1) by (simp add: afterRefresh_def)
    qed
  next
    case (TextReply o2)
    with assms AwaitRefresh show ?thesis by simp
  qed
qed

subsection \<open>The parts of a poll\<close>

lemma takePending_None: "pendingResponse s = None \<Longrightarrow> takePending s = None"
  by (simp add: takePending_def)

lemma takePending_Some:
  assumes "pendingResponse s = Some d"
  obtains s' sp where "takePending s = Some (s', sp, Line d)" "tookFrom s d s' sp"
proof (cases "isGenerating s")
  case True
  then have "beginGeneration (s\<lparr>pendingResponse := None\<rparr>)
      = (s\<lparr>pendingResponse := None\<rparr>, Skipped)"
    by (simp add: begin_skipped)
  then have "takePending s = Some (s\<lparr>pendingResponse := None\<rparr>, [], Line d)"
    using assms by (simp add: takePending_def)
  then show ?thesis using that [of "s\<lparr>pendingResponse := None\<rparr>" "[]"] True assms
    by (simp add: tookFrom_def)
next
  case False
  then have "\<not> isGenerating (s\<lparr>pendingResponse := None\<rparr>)" by simp
  then obtain s' g where b: "beginGeneration (s\<lparr>pendingResponse := None\<rparr>) = (s', Suspended g)"
    and f: "isGenerating s'" "core s' = core (s\<lparr>pendingResponse := None\<rparr>)"
      "lockedPost s' = lockedPost (s\<lparr>pendingResponse := None\<rparr>)"
      "hasPrompt g \<longrightarrow> promptPost g = lockedPost s'"
    by (rule begin_started)
  from b assms have "takePending s = Some (s', [Gen g], Line d)"
    by (simp add: takePending_def)
  then show ?thesis using that [of s' "[Gen g]"] f False assms
    by (simp add: core_def tookFrom_def)
qed

lemma pollAfterGen_cases [case_names Taken Nothing]:
  obtains d s' sp where "pollAfterGen s = (s', sp, Line d)" "tookFrom s d s' sp"
  | "pendingResponse s = None" "pollAfterGen s = (s, [], Waiting)"
proof (cases "pendingResponse s")
  case None
  then show ?thesis using that(2) by (simp add: pollAfterGen_def takePending_None)
next
  case (Some d)
  then obtain s' sp where "takePending s = Some (s', sp, Line d)" "tookFrom s d s' sp"
    by (rule takePending_Some)
  then show ?thesis using that(1) by (simp add: pollAfterGen_def)
qed

lemma pollBody_cases [case_names Taken Busy Begun]:
  obtains d s' sp where "pollBody s = (s', sp, Answered (Line d))" "tookFrom s d s' sp"
  | "pendingResponse s = None" "isGenerating s" "pollBody s = (s, [], Answered Waiting)"
  | s' g where "pendingResponse s = None" "\<not> isGenerating s"
      "pollBody s = (s', [], Awaiting (PollGen g))" "isGenerating s'" "core s' = core s"
      "lockedPost s' = lockedPost s" "hasPrompt g \<longrightarrow> promptPost g = lockedPost s'"
proof (cases "pendingResponse s")
  case (Some d)
  then obtain s' sp where "takePending s = Some (s', sp, Line d)" "tookFrom s d s' sp"
    by (rule takePending_Some)
  then show ?thesis using that(1) by (simp add: pollBody_def)
next
  case None
  show ?thesis
  proof (cases "isGenerating s")
    case True
    with None show ?thesis using that(2) by (simp add: pollBody_def takePending_None)
  next
    case False
    then obtain s' g where b: "beginGeneration s = (s', Suspended g)"
      and f: "isGenerating s'" "core s' = core s" "lockedPost s' = lockedPost s"
        "hasPrompt g \<longrightarrow> promptPost g = lockedPost s'"
      by (rule begin_started)
    with None False show ?thesis using that(3) [of s' g]
      by (simp add: pollBody_def takePending_None)
  qed
qed

lemma startEnd_cases [case_names Skipped Begun]:
  obtains "isGenerating s" "startConversationEnd p s = (lockPost p s, [])"
  | s' g where "\<not> isGenerating s" "startConversationEnd p s = (s', [Gen g])"
      "isGenerating s'" "core s' = core s"
proof (cases "isGenerating (lockPost p s)")
  case True
  then have "beginGeneration (lockPost p s) = (lockPost p s, Skipped)" by (rule begin_skipped)
  with True show ?thesis using that(1) by (simp add: startConversationEnd_def lockPost_core)
next
  case False
  then obtain s' g where b: "beginGeneration (lockPost p s) = (s', Suspended g)"
    and f: "isGenerating s'" "core s' = core (lockPost p s)"
    by (rule begin_started)
  with False show ?thesis using that(2) [of s' g]
    by (simp add: startConversationEnd_def lockPost_core)
qed

subsection \<open>One generation in flight\<close>

lemma flight_generating: "flightOk s ts \<Longrightarrow> inFlight ts \<noteq> [] \<Longrightarrow> isGenerating s"
  by (cases "isGenerating s") (simp_all add: flightOk_def)

lemma flight_idle: "flightOk s ts \<Longrightarrow> \<not> isGenerating s \<Longrightarrow> inFlight ts = []"
  by (simp add: flightOk_def)

lemma flight_le: "flightOk s ts \<Longrightarrow> length (inFlight ts) \<le> 1"
  by (simp add: flightOk_def)

lemma took_flight:
  assumes "tookFrom s d s' sp" and "flightOk s ts"
  shows "flightOk s' (ts @ sp)"
proof (cases "isGenerating s")
  case True
  with assms show ?thesis by (simp add: tookFrom_def flightOk_def)
next
  case False
  with assms(1) obtain g where "sp = [Gen g]" "isGenerating s'"
    by (auto simp add: tookFrom_def)
  with False assms(2) show ?thesis by (simp add: flightOk_def inFlight_append)
qed

lemma pollBody_flight:
  assumes "flightOk s ts" and "pollBody s = (s', sp, pg)"
  shows "flightOk s' (ts @ sp @ (case pg of Answered r \<Rightarrow> [] | Awaiting t \<Rightarrow> [t]))"
    and "isActive s' = isActive s"
proof -
  have "flightOk s' (ts @ sp @ (case pg of Answered r \<Rightarrow> [] | Awaiting t \<Rightarrow> [t]))
      \<and> isActive s' = isActive s"
  proof (cases rule: pollBody_cases [of s])
    case (Taken d s1 sp1)
    with assms(2) have eq: "s' = s1" "sp = sp1" "pg = Answered (Line d)" by simp_all
    from took_flight [OF Taken(2) assms(1)] Taken(2) show ?thesis
      by (simp add: eq tookFrom_def)
  next
    case Busy
    with assms(2) have eq: "s' = s" "sp = []" "pg = Answered Waiting" by simp_all
    from assms(1) show ?thesis by (simp add: eq)
  next
    case (Begun s1 g)
    with assms(2) have eq: "s' = s1" "sp = []" "pg = Awaiting (PollGen g)" by simp_all
    from assms(1) Begun(2,4,5) show ?thesis
      by (simp add: eq flightOk_def inFlight_append core_def)
  qed
  then show "flightOk s' (ts @ sp @ (case pg of Answered r \<Rightarrow> [] | Awaiting t \<Rightarrow> [t]))"
    and "isActive s' = isActive s" by simp_all
qed

lemma pollAfterGen_flight:
  assumes "flightOk s ts" and "pollAfterGen s = (s', sp, res)"
  shows "flightOk s' (ts @ sp)" and "isActive s' = isActive s"
proof -
  have "flightOk s' (ts @ sp) \<and> isActive s' = isActive s"
  proof (cases rule: pollAfterGen_cases [of s])
    case (Taken d s1 sp1)
    with assms(2) have eq: "s' = s1" "sp = sp1" "res = Line d" by simp_all
    from took_flight [OF Taken(2) assms(1)] Taken(2) show ?thesis
      by (simp add: eq tookFrom_def)
  next
    case Nothing
    with assms(2) have eq: "s' = s" "sp = []" "res = Waiting" by simp_all
    from assms(1) show ?thesis by (simp add: eq)
  qed
  then show "flightOk s' (ts @ sp)" and "isActive s' = isActive s" by simp_all
qed

lemma startEnd_flight:
  assumes "flightOk s ts" and "startConversationEnd p s = (s', sp)"
  shows "flightOk s' (ts @ sp)" and "isActive s' = isActive s"
proof -
  have "flightOk s' (ts @ sp) \<and> isActive s' = isActive s"
  proof (cases rule: startEnd_cases [of s p])
    case Skipped
    with assms(2) have eq: "s' = lockPost p s" "sp = []" by simp_all
    from assms(1) show ?thesis
      using lockPost_core [of p s] by (simp add: eq flightOk_def core_def)
  next
    case (Begun s1 g)
    with assms(2) have eq: "s' = s1" "sp = [Gen g]" by simp_all
    from assms(1) Begun(1,3,4) show ?thesis
      by (simp add: eq flightOk_def inFlight_append core_def)
  qed
  then show "flightOk s' (ts @ sp)" and "isActive s' = isActive s" by simp_all
qed

text \<open>A reply to the generation held by task \<open>i\<close>: the generation goes on in a task
  that holds it, or ends and leaves tasks that hold none.\<close>

lemma resume_flight:
  assumes f: "flightOk s ts" and i: "i < length ts" and ti: "inFlight [ts ! i] = [g]"
    and r: "resumeGen now g r s = Some (s', pr)"
  shows "case pr of
           Suspended g' \<Rightarrow> (\<forall>t'. inFlight [t'] = [g'] \<longrightarrow> flightOk s' (replaceAt i ts [t']))
         | _ \<Rightarrow> (\<forall>ys. inFlight ys = [] \<longrightarrow> flightOk s' (replaceAt i ts ys))"
    and "isActive s' = isActive s"
proof -
  note le = flight_le [OF f]
  from replaceAt_only(1) [OF i le ti] have one: "inFlight ts = [g]" .
  with f have gen: "isGenerating s" using flight_generating by simp
  have repl: "inFlight (replaceAt i ts ys) = inFlight ys" for ys
    using replaceAt_only(2) [OF i le ti] .
  have "(case pr of
           Suspended g' \<Rightarrow> (\<forall>t'. inFlight [t'] = [g'] \<longrightarrow> flightOk s' (replaceAt i ts [t']))
         | _ \<Rightarrow> (\<forall>ys. inFlight ys = [] \<longrightarrow> flightOk s' (replaceAt i ts ys)))
      \<and> isActive s' = isActive s"
    using r
  proof (cases rule: resumeGen_cases)
    case Caught
    then show ?thesis by (simp add: flightOk_def repl finallyBlock_def)
  next
    case (Completed persona cleanText np s0)
    then show ?thesis by (simp add: flightOk_def repl emitTurn_fields core_def)
  next
    case (Suspended g')
    with gen show ?thesis by (simp add: flightOk_def repl core_def)
  qed
  then show "case pr of
           Suspended g' \<Rightarrow> (\<forall>t'. inFlight [t'] = [g'] \<longrightarrow> flightOk s' (replaceAt i ts [t']))
         | _ \<Rightarrow> (\<forall>ys. inFlight ys = [] \<longrightarrow> flightOk s' (replaceAt i ts ys))"
    and "isActive s' = isActive s" by simp_all
qed

lemma removed_flight:
  assumes "flightOk s ts" and "i < length ts" and "inFlight [ts ! i] = []" and "inFlight ys = []"
  shows "flightOk s (replaceAt i ts ys)"
  using assms replaceAt_other [of i ts ys] by (simp add: flightOk_def)

lemma applyPoll_flight:
  assumes "flightOk s ts" and "isActive s"
  shows "flightInv (applyPoll ts (pollBody s) c)"
proof -
  obtain s' sp pg where b: "pollBody s = (s', sp, pg)" by (cases "pollBody s")
  from pollBody_flight [OF assms(1) b] assms(2) show ?thesis
    by (cases pg) (simp_all add: b applyPoll_def flightInv_def)
qed

lemma poll_flight:
  assumes "flightInv c"
  shows "flightInv (step (Poll now) c)"
proof (cases "isActive (st c)")
  case True
  with assms show ?thesis using applyPoll_flight [of "st c" "tasks c" c]
    by (simp add: flightInv_def)
next
  case False
  with assms show ?thesis
    by (simp add: flightInv_def flightOk_def startConversationBegin_def resetPostTimer_def
        getInitialState_def)
qed

lemma resume_flight_step:
  assumes v: "flightInv c" and i: "i < length (tasks c)"
  shows "flightInv (resumeTask i r now c)"
proof -
  from v i have f: "flightOk (st c) (tasks c)" and act: "isActive (st c)"
    by (auto simp add: flightInv_def)
  have gen: "flightInv (resumeTask i r now c)"
    if ti: "inFlight [tasks c ! i] = [gt]"
      and form: "tasks c ! i = Gen gt \<or> tasks c ! i = PollGen gt" for gt
  proof (cases "resumeGen now gt r (st c)")
    case None
    with form v show ?thesis by (auto simp add: resumeTask_def)
  next
    case (Some x)
    obtain s' pr where x: "x = (s', pr)" by (cases x)
    with Some have rs: "resumeGen now gt r (st c) = Some (s', pr)" by simp
    note rg = resume_flight(1) [OF f i ti rs] resume_flight(2) [OF f i ti rs]
    from rg(2) act have a': "isActive s'" by simp
    show ?thesis
    proof (cases "\<exists>g'. pr = Suspended g'")
      case True
      then obtain g' where su: "pr = Suspended g'" by blast
      with rg(1) have "flightOk s' (replaceAt i (tasks c) [Gen g'])"
        "flightOk s' (replaceAt i (tasks c) [PollGen g'])" by simp_all
      with form rs su a' show ?thesis
        by (auto simp add: resumeTask_def flightInv_def)
    next
      case False
      with rg(1) have "flightOk s' (replaceAt i (tasks c) [])"
        "flightOk s' (replaceAt i (tasks c) [PollAfterGen])"
        by (cases pr; simp)+
      with form rs False a' show ?thesis
        by (cases pr) (auto simp add: resumeTask_def flightInv_def)
    qed
  qed
  have start: "flightInv (c\<lparr>st := s', tasks := replaceAt i (tasks c) ys @ sp\<rparr>)"
    if "inFlight [tasks c ! i] = []" "inFlight ys = []"
      "startConversationEnd p (st c) = (s', sp)" for p s' sp ys
  proof -
    from removed_flight [OF f i that(1,2)]
    have "flightOk (st c) (replaceAt i (tasks c) ys)" .
    from startEnd_flight [OF this that(3)] act show ?thesis by (simp add: flightInv_def)
  qed
  have drop: "flightInv (c\<lparr>tasks := replaceAt i (tasks c) [], responses := rs\<rparr>)"
    if "inFlight [tasks c ! i] = []" for rs
    using removed_flight [OF f i that, of "[]"] act by (simp add: flightInv_def)
  show ?thesis
  proof (cases "tasks c ! i")
    case (Gen gt)
    then show ?thesis using gen [of gt] by simp
  next
    case (PollGen gt)
    then show ?thesis using gen [of gt] by simp
  next
    case Start
    show ?thesis
    proof (cases r)
      case (TextReply t)
      with Start v show ?thesis by (simp add: resumeTask_def)
    next
      case (PostReply o1)
      show ?thesis
      proof (cases o1)
        case Throws
        with Start PostReply show ?thesis
          using drop [of "responses c"] by (simp add: resumeTask_def)
      next
        case (Returns p)
        obtain s' sp where e: "startConversationEnd p (st c) = (s', sp)"
          by (cases "startConversationEnd p (st c)")
        with Start PostReply Returns show ?thesis
          using start [of "[]" p s' sp] by (simp add: resumeTask_def)
      qed
    qed
  next
    case PollStart
    show ?thesis
    proof (cases r)
      case (TextReply t)
      with PollStart v show ?thesis by (simp add: resumeTask_def)
    next
      case (PostReply o1)
      show ?thesis
      proof (cases o1)
        case Throws
        with PollStart PostReply show ?thesis
          using drop [of "responses c @ [Failed]"] by (simp add: resumeTask_def)
      next
        case (Returns p)
        obtain s' sp where e: "startConversationEnd p (st c) = (s', sp)"
          by (cases "startConversationEnd p (st c)")
        with PollStart PostReply Returns show ?thesis
          using start [of "[PollAfterStart]" p s' sp] by (simp add: resumeTask_def)
      qed
    qed
  next
    case PollAfterStart
    with v show ?thesis by (simp add: resumeTask_def)
  next
    case PollAfterGen
    with v show ?thesis by (simp add: resumeTask_def)
  qed
qed

lemma continue_flight_step:
  assumes v: "flightInv c" and i: "i < length (tasks c)"
  shows "flightInv (continueTask i c)"
proof -
  from v i have f: "flightOk (st c) (tasks c)" and act: "isActive (st c)"
    by (auto simp add: flightInv_def)
  show ?thesis
  proof (cases "tasks c ! i")
    case PollAfterStart
    then have "flightOk (st c) (replaceAt i (tasks c) [])"
      using removed_flight [OF f i, of "[]"] by simp
    from applyPoll_flight [OF this act] PollAfterStart show ?thesis
      by (simp add: continueTask_def)
  next
    case PollAfterGen
    then have o: "flightOk (st c) (replaceAt i (tasks c) [])"
      using removed_flight [OF f i, of "[]"] by simp
    obtain s' sp res where pa: "pollAfterGen (st c) = (s', sp, res)"
      by (cases "pollAfterGen (st c)")
    from pollAfterGen_flight [OF o pa] act PollAfterGen pa show ?thesis
      by (simp add: continueTask_def flightInv_def)
  qed (use v in \<open>simp_all add: continueTask_def\<close>)
qed

lemma step_flight: "flightInv c \<Longrightarrow> isPollOrProgress e \<Longrightarrow> flightInv (step e c)"
  by (cases e)
     (simp_all add: poll_flight resume_flight_step continue_flight_step del: step.simps(1))

lemma run_flight: "flightInv c \<Longrightarrow> list_all isPollOrProgress evs \<Longrightarrow> flightInv (run evs c)"
  by (induction evs arbitrary: c) (simp_all add: step_flight del: step.simps)

subsection \<open>Numbering, speakers and the locked post\<close>

lemma promptOk_cong: "inFlight ts' = inFlight ts \<Longrightarrow> promptOk s ts' = promptOk s ts"
  by (simp add: promptOk_def)

lemma took_rest:
  assumes t: "tookFrom s d s' sp" and r: "restOk s ts rs"
  shows "restOk s' (ts @ sp) (rs @ [Line d])"
proof -
  from t have f: "pendingResponse s = Some d" "pendingResponse s' = None"
    "turnCount s' = turnCount s" "currentSpeaker s' = currentSpeaker s"
    "lockedPost s' = lockedPost s"
    by (simp_all add: tookFrom_def)
  from t have sp: "if isGenerating s then sp = []
       else (\<exists>g. sp = [Gen g] \<and> (hasPrompt g \<longrightarrow> promptPost g = lockedPost s'))"
    unfolding tookFrom_def by blast
  from r f(1) have num: "turnNumber d = turnCount s" "speaker d = speakerFor (turnCount s)"
    "0 < turnCount s" and cur: "currentSpeaker s = speakerFor (Suc (turnCount s))"
    and log: "numbered 1 (delivered rs)" "length (delivered rs) = turnCount s - 1"
    and nr: "noRestart ts" and po: "promptOk s ts"
    by (simp_all add: restOk_def schedOk_def stateOk_def logOk_def)
  have st: "stateOk s'" using f cur by (simp add: stateOk_def)
  have lg: "logOk s' (rs @ [Line d])"
    using f(2,3) log num by (simp add: logOk_def delivered_append numbered_append)
  have "noRestart sp \<and> promptOk s' sp"
  proof (cases "isGenerating s")
    case True
    with sp show ?thesis by (simp add: noRestart_def promptOk_def)
  next
    case False
    with sp obtain g where "sp = [Gen g]" "hasPrompt g \<longrightarrow> promptPost g = lockedPost s'"
      by auto
    then show ?thesis by (simp add: noRestart_def promptOk_def)
  qed
  moreover have "promptOk s' ts" using po promptOk_lock [OF f(5)] by simp
  ultimately show ?thesis
    using st lg nr f(2) by (simp add: restOk_def schedOk_def noRestart_append promptOk_append)
qed

lemma waiting_rest:
  assumes "restOk s ts rs" and "pendingResponse s = None"
  shows "restOk s ts (rs @ [Waiting])"
  using assms by (simp add: restOk_def schedOk_def logOk_def delivered_append)

lemma pollBody_rest:
  assumes "restOk s ts rs" and "pollBody s = (s', sp, pg)"
  shows "restOk s' (ts @ sp @ (case pg of Answered r \<Rightarrow> [] | Awaiting t \<Rightarrow> [t]))
           (rs @ (case pg of Answered r \<Rightarrow> [r] | Awaiting t \<Rightarrow> []))"
proof (cases rule: pollBody_cases [of s])
  case (Taken d s1 sp1)
  with assms(2) have eq: "s' = s1" "sp = sp1" "pg = Answered (Line d)" by simp_all
  from took_rest [OF Taken(2) assms(1)] show ?thesis by (simp add: eq)
next
  case Busy
  with assms(2) have eq: "s' = s" "sp = []" "pg = Answered Waiting" by simp_all
  from waiting_rest [OF assms(1) Busy(1)] show ?thesis by (simp add: eq)
next
  case (Begun s1 g)
  with assms(2) have eq: "s' = s1" "sp = []" "pg = Awaiting (PollGen g)" by simp_all
  from Begun(1,5) have pn: "pendingResponse s1 = None" by (simp add: core_def)
  from assms(1) promptOk_lock [OF Begun(6)] have "promptOk s1 ts"
    by (simp add: restOk_def)
  moreover from Begun(7) have "promptOk s1 [PollGen g]" by (simp add: promptOk_def)
  ultimately have "promptOk s1 (ts @ [PollGen g])" by (simp add: promptOk_append)
  with assms(1) pn schedOk_core [OF Begun(5)] show ?thesis
    by (simp add: eq restOk_def noRestart_append noRestart_def)
qed

lemma pollAfterGen_rest:
  assumes "restOk s ts rs" and "pollAfterGen s = (s', sp, res)"
  shows "restOk s' (ts @ sp) (rs @ [res])"
proof (cases rule: pollAfterGen_cases [of s])
  case (Taken d s1 sp1)
  with assms(2) have eq: "s' = s1" "sp = sp1" "res = Line d" by simp_all
  from took_rest [OF Taken(2) assms(1)] show ?thesis by (simp add: eq)
next
  case Nothing
  with assms(2) have eq: "s' = s" "sp = []" "res = Waiting" by simp_all
  from waiting_rest [OF assms(1) Nothing(1)] show ?thesis by (simp add: eq)
qed

lemma removed_rest:
  assumes "restOk s ts rs" and "i < length ts" and "inFlight [ts ! i] = []"
    and "inFlight ys = []" and "noRestart ys"
  shows "restOk s (replaceAt i ts ys) rs"
  using assms replaceAt_other [of i ts ys] promptOk_cong [of "replaceAt i ts ys" ts s]
  by (simp add: restOk_def noRestart_replaceAt)

text \<open>A reply to the generation in flight, held by task \<open>i\<close>.\<close>

lemma resume_rest:
  assumes ro: "restOk s ts rs" and f: "flightOk s ts" and i: "i < length ts"
    and ti: "inFlight [ts ! i] = [g]" and r: "resumeGen now g r s = Some (s', pr)"
  shows "case pr of
           Suspended g' \<Rightarrow>
             (\<forall>t'. inFlight [t'] = [g'] \<and> noRestart [t'] \<longrightarrow> restOk s' (replaceAt i ts [t']) rs)
         | _ \<Rightarrow> (\<forall>ys. inFlight ys = [] \<and> noRestart ys \<longrightarrow> restOk s' (replaceAt i ts ys) rs)"
proof -
  note le = flight_le [OF f]
  from replaceAt_only(1) [OF i le ti] have one: "inFlight ts = [g]" .
  with f have gen: "isGenerating s" using flight_generating by simp
  from ro gen have pn: "pendingResponse s = None" and so: "schedOk s rs"
    and nr: "noRestart ts" and po: "promptOk s ts"
    by (simp_all add: restOk_def)
  have repl: "inFlight (replaceAt i ts ys) = inFlight ys" for ys
    using replaceAt_only(2) [OF i le ti] .
  have ended: "restOk s1 (replaceAt i ts ys) rs"
    if "schedOk s1 rs" "\<not> isGenerating s1" "inFlight ys = []" "noRestart ys" for s1 ys
    using that nr repl [of ys]
    by (simp add: restOk_def noRestart_replaceAt promptOk_none)
  from r show ?thesis
  proof (cases rule: resumeGen_cases)
    case Caught
    have c: "core s' = core s" by (simp add: Caught core_def finallyBlock_def)
    have "\<not> isGenerating s'" by (simp add: Caught finallyBlock_def)
    with so schedOk_core [OF c] show ?thesis using ended by (simp add: Caught(1))
  next
    case (Completed persona cleanText np s0)
    from Completed(3) pn have s0: "turnCount s0 = turnCount s" "pendingResponse s0 = None"
      "currentSpeaker s0 = currentSpeaker s"
      by (simp_all add: core_def)
    from so have cur: "currentSpeaker s = speakerFor (Suc (turnCount s))"
      and lo: "logOk s rs"
      by (simp_all add: schedOk_def stateOk_def)
    have st: "stateOk s'"
      using s0 cur speakerFor_flip [of "turnCount s"]
      by (simp add: Completed(2) stateOk_def emitTurn_fields)
    have lg: "logOk s' rs"
      using lo pn s0 by (simp add: Completed(2) logOk_def emitTurn_fields)
    have "\<not> isGenerating s'" by (simp add: Completed(2) emitTurn_fields)
    with st lg show ?thesis using ended by (simp add: Completed(1) schedOk_def)
  next
    case (Suspended g')
    from po one have pg: "hasPrompt g \<longrightarrow> promptPost g = lockedPost s"
      by (simp add: promptOk_one)
    with Suspended(4,5) have pg': "hasPrompt g' \<longrightarrow> promptPost g' = lockedPost s'"
      by (cases "hasPrompt g") simp_all
    from Suspended(2) pn have pn': "pendingResponse s' = None" by (simp add: core_def)
    have "restOk s' (replaceAt i ts [t']) rs" if "inFlight [t'] = [g']" "noRestart [t']" for t'
    proof -
      have "inFlight (replaceAt i ts [t']) = [g']" using repl [of "[t']"] that(1) by simp
      with pg' have "promptOk s' (replaceAt i ts [t'])" by (simp add: promptOk_one)
      with so schedOk_core [OF Suspended(2)] pn' nr that(2) show ?thesis
        by (simp add: restOk_def noRestart_replaceAt)
    qed
    then show ?thesis by (simp add: Suspended(1))
  qed
qed

subsection \<open>Every step keeps the invariants\<close>

lemma inv_flight: "inv c \<Longrightarrow> flightInv c"
  by (simp add: inv_def flightInv_def)

lemma inv_intro:
  "flightInv c \<Longrightarrow> isActive (st c) \<Longrightarrow> restOk (st c) (tasks c) (responses c) \<Longrightarrow> inv c"
  by (simp add: inv_def flightInv_def)

lemma flight_active:
  assumes "flightInv c" and "isPollOrProgress e" and "isActive (st c)"
  shows "isActive (st (step e c))"
proof -
  from assms(1,3) have f: "flightOk (st c) (tasks c)" by (simp add: flightInv_def)
  show ?thesis
  proof (cases e)
    case (Poll now)
    obtain s' sp pg where b: "pollBody (st c) = (s', sp, pg)" by (cases "pollBody (st c)")
    from pollBody_flight(2) [OF f b] assms(3) Poll show ?thesis
      by (cases pg) (simp_all add: b applyPoll_def)
  next
    case (Resume i r now)
    show ?thesis
    proof (cases "i < length (tasks c)")
      case False
      with Resume assms(3) show ?thesis by simp
    next
      case True
      have gen: "isActive (st (resumeTask i r now c))"
        if ti: "inFlight [tasks c ! i] = [gt]"
          and form: "tasks c ! i = Gen gt \<or> tasks c ! i = PollGen gt" for gt
      proof (cases "resumeGen now gt r (st c)")
        case None
        with form assms(3) show ?thesis by (auto simp add: resumeTask_def)
      next
        case (Some x)
        obtain s' pr where x: "x = (s', pr)" by (cases x)
        with Some have rs: "resumeGen now gt r (st c) = Some (s', pr)" by simp
        from resume_flight(2) [OF f True ti rs] assms(3) have "isActive s'" by simp
        with form rs show ?thesis
          by (cases pr) (auto simp add: resumeTask_def)
      qed
      have start: "isActive s'" if "startConversationEnd p (st c) = (s', sp)" for p s' sp
        using startEnd_flight(2) [OF f that] assms(3) by simp
      have "isActive (st (resumeTask i r now c))"
      proof (cases "tasks c ! i")
        case (Gen gt)
        then show ?thesis using gen [of gt] by simp
      next
        case (PollGen gt)
        then show ?thesis using gen [of gt] by simp
      next
        case Start
        with assms(3) start show ?thesis
          by (auto simp add: resumeTask_def split: reply.splits outcome.splits prod.splits)
      next
        case PollStart
        with assms(3) start show ?thesis
          by (auto simp add: resumeTask_def split: reply.splits outcome.splits prod.splits)
      qed (use assms(3) in \<open>simp_all add: resumeTask_def\<close>)
      with Resume True show ?thesis by simp
    qed
  next
    case (Continue i)
    show ?thesis
    proof (cases "i < length (tasks c)")
      case False
      with Continue assms(3) show ?thesis by simp
    next
      case True
      have "isActive (st (continueTask i c))"
      proof (cases "tasks c ! i")
        case PollAfterStart
        obtain s' sp pg where b: "pollBody (st c) = (s', sp, pg)" by (cases "pollBody (st c)")
        from pollBody_flight(2) [OF f b] assms(3) PollAfterStart show ?thesis
          by (cases pg) (simp_all add: b applyPoll_def continueTask_def)
      next
        case PollAfterGen
        obtain s' sp res where pa: "pollAfterGen (st c) = (s', sp, res)"
          by (cases "pollAfterGen (st c)")
        from pollAfterGen_flight(2) [OF f pa] assms(3) PollAfterGen show ?thesis
          by (simp add: pa continueTask_def)
      qed (use assms(3) in \<open>simp_all add: continueTask_def\<close>)
      with Continue True show ?thesis by simp
    qed
  qed (use assms(2) in simp_all)
qed

lemma applyPoll_rest:
  assumes "restOk s ts (responses c)" and "c' = applyPoll ts (pollBody s) c"
  shows "restOk (st c') (tasks c') (responses c')"
proof -
  obtain s' sp pg where b: "pollBody s = (s', sp, pg)" by (cases "pollBody s")
  from pollBody_rest [OF assms(1) b] show ?thesis
    by (cases pg) (simp_all add: assms(2) b applyPoll_def)
qed

lemma poll_rest:
  assumes "inv c" and "c' = step (Poll now) c"
  shows "restOk (st c') (tasks c') (responses c')"
  using assms applyPoll_rest [of "st c" "tasks c" c c'] by (simp add: inv_def)

lemma resume_rest_step:
  assumes v: "inv c" and i: "i < length (tasks c)" and c': "c' = resumeTask i r now c"
  shows "restOk (st c') (tasks c') (responses c')"
proof -
  from v have f: "flightOk (st c) (tasks c)"
    and ro: "restOk (st c) (tasks c) (responses c)" by (simp_all add: inv_def)
  from ro have nr: "noRestart (tasks c)" by (simp add: restOk_def)
  have gen: ?thesis
    if ti: "inFlight [tasks c ! i] = [gt]"
      and form: "tasks c ! i = Gen gt \<or> tasks c ! i = PollGen gt" for gt
  proof (cases "resumeGen now gt r (st c)")
    case None
    with form ro c' show ?thesis by (auto simp add: resumeTask_def)
  next
    case (Some x)
    obtain s' pr where x: "x = (s', pr)" by (cases x)
    with Some have rs: "resumeGen now gt r (st c) = Some (s', pr)" by simp
    note rg = resume_rest [OF ro f i ti rs]
    show ?thesis
    proof (cases "\<exists>g'. pr = Suspended g'")
      case True
      then obtain g' where su: "pr = Suspended g'" by blast
      with rg have "restOk s' (replaceAt i (tasks c) [Gen g']) (responses c)"
        "restOk s' (replaceAt i (tasks c) [PollGen g']) (responses c)"
        by (simp_all add: noRestart_def)
      with form rs su c' show ?thesis by (auto simp add: resumeTask_def)
    next
      case False
      with rg have "restOk s' (replaceAt i (tasks c) []) (responses c)"
        "restOk s' (replaceAt i (tasks c) [PollAfterGen]) (responses c)"
        by (cases pr; simp add: noRestart_def)+
      with form rs False c' show ?thesis
        by (cases pr) (auto simp add: resumeTask_def)
    qed
  qed
  from noRestart_nth [OF nr i] show ?thesis
  proof (cases "tasks c ! i")
    case (Gen gt)
    then show ?thesis using gen [of gt] by simp
  next
    case (PollGen gt)
    then show ?thesis using gen [of gt] by simp
  qed (use ro c' in \<open>simp_all add: resumeTask_def\<close>)
qed

lemma continue_rest_step:
  assumes v: "inv c" and i: "i < length (tasks c)" and c': "c' = continueTask i c"
  shows "restOk (st c') (tasks c') (responses c')"
proof -
  from v have ro: "restOk (st c) (tasks c) (responses c)" by (simp add: inv_def)
  show ?thesis
  proof (cases "tasks c ! i")
    case PollAfterStart
    then have "restOk (st c) (replaceAt i (tasks c) []) (responses c)"
      using removed_rest [OF ro i, of "[]"] by (simp add: noRestart_def)
    from applyPoll_rest [OF this] PollAfterStart c' show ?thesis
      by (simp add: continueTask_def)
  next
    case PollAfterGen
    then have o: "restOk (st c) (replaceAt i (tasks c) []) (responses c)"
      using removed_rest [OF ro i, of "[]"] by (simp add: noRestart_def)
    obtain s' sp res where pa: "pollAfterGen (st c) = (s', sp, res)"
      by (cases "pollAfterGen (st c)")
    from pollAfterGen_rest [OF o pa] PollAfterGen pa c' show ?thesis
      by (simp add: continueTask_def)
  qed (use ro c' in \<open>simp_all add: continueTask_def\<close>)
qed

lemma step_inv:
  assumes "inv c" and "isPollOrProgress e"
  shows "inv (step e c)"
proof (rule inv_intro)
  from assms show "flightInv (step e c)" using step_flight inv_flight by blast
  from assms show "isActive (st (step e c))"
    using flight_active [OF inv_flight] by (simp add: inv_def)
  from assms(1) have act: "isActive (st c)" and ro: "restOk (st c) (tasks c) (responses c)"
    by (simp_all add: inv_def)
  show "restOk (st (step e c)) (tasks (step e c)) (responses (step e c))"
  proof (cases e)
    case (Poll now)
    then show ?thesis using poll_rest [OF assms(1)] by simp
  next
    case (Resume i r now)
    then show ?thesis using resume_rest_step [OF assms(1)] ro by simp
  next
    case (Continue i)
    then show ?thesis using continue_rest_step [OF assms(1)] ro by simp
  qed (use assms(2) in simp_all)
qed

lemma run_inv: "inv c \<Longrightarrow> list_all isPollOrProgress evs \<Longrightarrow> inv (run evs c)"
  by (induction evs arbitrary: c) (simp_all add: step_inv del: step.simps)

subsection \<open>Where a conversation begins\<close>

lemma initial_flight: "flightInv initialConfig"
  by (simp add: flightInv_def flightOk_def initialConfig_def getInitialState_def)

lemma started_eq:
  "started t0 initialPost t1 =
     (case startConversationEnd initialPost (startConversationBegin t0) of
        (s', sp) \<Rightarrow> \<lparr>st = s', tasks = sp, responses = []\<rparr>)"
  by (simp add: started_def initialConfig_def resumeTask_def replaceAt_def split: prod.splits)

lemma started_inv: "inv (started t0 initialPost t1)"
proof -
  let ?b = "startConversationBegin t0"
  have idle: "\<not> isGenerating ?b" and b: "core ?b = (0, None, boss, True)"
    by (simp_all add: startConversationBegin_def resetPostTimer_def getInitialState_def core_def)
  show ?thesis
  proof (cases rule: startEnd_cases [of ?b initialPost])
    case Skipped
    with idle show ?thesis by simp
  next
    case (Begun s' g)
    let ?l = "lockPost initialPost ?b"
    from Begun(2) have bg: "beginGeneration ?l = (s', Suspended g)"
      by (cases "beginGeneration ?l") (auto simp add: startConversationEnd_def elim: spawn.elims)
    have "\<not> isGenerating ?l" using idle by (simp add: lockPost_core)
    then obtain s2 g2 where "beginGeneration ?l = (s2, Suspended g2)"
      "hasPrompt g2 \<longrightarrow> promptPost g2 = lockedPost s2"
      by (rule begin_started)
    with bg have pr: "hasPrompt g \<longrightarrow> promptPost g = lockedPost s'" by simp
    from Begun(4) b have c: "core s' = (0, None, boss, True)" by simp
    then have "schedOk s' []"
      by (simp add: core_def schedOk_def stateOk_def logOk_def speakerFor_def)
    with c pr Begun(3) show ?thesis
      by (simp add: started_eq Begun(2) inv_def flightOk_def restOk_def noRestart_def
          promptOk_def core_def)
  qed
qed

lemma reach_flight:
  assumes "list_all isPollOrProgress evs"
    and "c0 = initialConfig \<or> c0 = started t0 initialPost t1"
  shows "flightInv (run evs c0)"
  using assms initial_flight inv_flight [OF started_inv [of t0 initialPost t1]]
    run_flight [of c0 evs] by auto

lemma reach_inv:
  assumes "list_all isPollOrProgress evs"
  shows "inv (run evs (started t0 initialPost t1))"
  using assms started_inv run_inv by blast


section \<open>The claims\<close>

subsection \<open>Helpers for the concrete traces\<close>

lemma numbered_numbers: "numbered k ds \<Longrightarrow> map turnNumber ds = [k..<k + length ds]"
proof (induction ds arbitrary: k)
  case Nil
  then show ?case by simp
next
  case (Cons d ds)
  from Cons.prems have d: "turnNumber d = k" and n: "numbered (Suc k) ds" by simp_all
  from Cons.IH [OF n] have rest: "map turnNumber ds = [Suc k..<Suc k + length ds]" .
  have "k < k + length (d # ds)" by simp
  then have "[k..<k + length (d # ds)] = k # [Suc k..<k + length (d # ds)]"
    by (rule upt_conv_Cons)
  moreover have "k + length (d # ds) = Suc k + length ds" by simp
  ultimately have "[k..<k + length (d # ds)] = k # [Suc k..<Suc k + length ds]"
    by (simp only:)
  with d rest show ?case by (simp only: list.map)
qed

lemma numbered_speakers:
  "numbered k ds \<Longrightarrow> i < length ds \<Longrightarrow> speaker (ds ! i) = speakerFor (k + i)"
  by (induction ds arbitrary: k i) (auto simp add: nth_Cons split: nat.splits)

lemma poll_while_generating:
  assumes "isGenerating (st c)" and "isActive (st c)"
  shows "st (step (Poll now) c) = (st c)\<lparr>pendingResponse := None\<rparr>
         \<and> tasks (step (Poll now) c) = tasks c"
proof (cases "pendingResponse (st c)")
  case None
  with assms show ?thesis
    by (simp add: pollBody_def takePending_def applyPoll_def)
next
  case (Some d)
  with assms show ?thesis
    by (simp add: pollBody_def takePending_def applyPoll_def begin_skipped)
qed

lemma demo_polls: "list_all isPollOrProgress demoTrace"
  by (simp add: demoTrace_def)

lemmas trace_defs = started_def initialConfig_def
      startConversationBegin_def startConversationEnd_def getInitialState_def
      resumeTask_def continueTask_def replaceAt_def applyPoll_def pollBody_def pollAfterGen_def
      takePending_def
      cycle_defs clean_hello isPostTimedOut_def POST_TIMEOUT_MS_def getCurrentPersona_def

lemma demo_run:
  "map (\<lambda>d. (turnNumber d, speaker d, map_option title (newPost d)))
       (delivered (responses (run demoTrace demoStart)))
     = [(1, boss, Some ''X''), (2, girl, Some ''Y''), (3, boss, None)]"
  by (simp add: demoTrace_def demoStart_def trace_defs postX_def postY_def Let_def)



lemma stopped_facts: "\<not> isActive (st stoppedConfig)" "length (tasks stoppedConfig) = 1"
  by (simp_all add: stoppedConfig_def demoStart_def trace_defs Let_def)


subsection \<open>Conversations without a restart\<close>

text \<open>
  What the flag \<open>isGenerating\<close> does ensure. A call of the generation operation while
  the flag is set returns at once and changes nothing; a poll made then only hands
  out the pending response, if there is one, and starts nothing. Over every trace of
  polls, replies and continuations, from a fresh service or from a conversation that
  \<^verbatim>\<open>startConversation\<close> has started on a fresh service, at most one generation is in
  flight, exactly when the flag is set; and from such a started conversation the
  pending slot is empty whenever a generation is in flight.
\<close>

lemma single_generation_without_restart:
  "(isGenerating s \<longrightarrow>
      beginGeneration s = (s, Skipped) \<and> generateNextResponse env s = (s, Skipped))
   \<and> (isGenerating (st c) \<and> isActive (st c) \<longrightarrow>
        st (step (Poll now) c) = (st c)\<lparr>pendingResponse := None\<rparr>
        \<and> tasks (step (Poll now) c) = tasks c)
   \<and> (list_all isPollOrProgress evs \<and> (c0 = initialConfig \<or> c0 = started t0 initialPost t1) \<longrightarrow>
        length (inFlight (tasks (run evs c0))) \<le> 1
        \<and> (isGenerating (st (run evs c0)) \<longleftrightarrow> inFlight (tasks (run evs c0)) \<noteq> []))
   \<and> (list_all isPollOrProgress evs
        \<and> isGenerating (st (run evs (started t0 initialPost t1))) \<longrightarrow>
        pendingResponse (st (run evs (started t0 initialPost t1))) = None)"
proof (intro conjI)
  show "list_all isPollOrProgress evs
        \<and> isGenerating (st (run evs (started t0 initialPost t1))) \<longrightarrow>
        pendingResponse (st (run evs (started t0 initialPost t1))) = None"
    using reach_inv [of evs t0 initialPost t1] by (simp add: inv_def restOk_def)
  show "isGenerating s \<longrightarrow>
      beginGeneration s = (s, Skipped) \<and> generateNextResponse env s = (s, Skipped)"
    by (simp add: begin_skipped generateNextResponse_def runLatestPost_def runAI_def)
  show "isGenerating (st c) \<and> isActive (st c) \<longrightarrow>
        st (step (Poll now) c) = (st c)\<lparr>pendingResponse := None\<rparr>
        \<and> tasks (step (Poll now) c) = tasks c"
    using poll_while_generating by blast
  show "list_all isPollOrProgress evs \<and> (c0 = initialConfig \<or> c0 = started t0 initialPost t1) \<longrightarrow>
        length (inFlight (tasks (run evs c0))) \<le> 1
        \<and> (isGenerating (st (run evs c0)) \<longleftrightarrow> inFlight (tasks (run evs c0)) \<noteq> [])"
  proof
    assume "list_all isPollOrProgress evs \<and> (c0 = initialConfig \<or> c0 = started t0 initialPost t1)"
    then have "flightInv (run evs c0)" using reach_flight by blast
    then show "length (inFlight (tasks (run evs c0))) \<le> 1
        \<and> (isGenerating (st (run evs c0)) \<longleftrightarrow> inFlight (tasks (run evs c0)) \<noteq> [])"
      by (auto simp add: flightInv_def flightOk_def split: if_splits)
  qed
qed

text \<open>
  When \<^verbatim>\<open>startConversation\<close> has returned on a fresh service and is not called again,
  the turns handed out carry the numbers 1, 2, 3, ... in that order, the first is
  spoken by \<open>boss\<close>, the next by \<open>girl\<close>, and so on; and a generation that has built
  its prompt and is suspended built it from the post that is locked now.
\<close>

lemma turn_numbers_without_restart:
  assumes "list_all isPollOrProgress evs"
  shows "map turnNumber (delivered (responses (run evs (started t0 initialPost t1))))
           = [1..<Suc (length (delivered (responses (run evs (started t0 initialPost t1)))))]"
proof -
  from assms have "inv (run evs (started t0 initialPost t1))" by (rule reach_inv)
  then have "numbered 1 (delivered (responses (run evs (started t0 initialPost t1))))"
    by (simp add: inv_def restOk_def schedOk_def logOk_def)
  from numbered_numbers [OF this] show ?thesis by simp
qed

lemma speakers_without_restart:
  assumes "list_all isPollOrProgress evs"
    and "i < length (delivered (responses (run evs (started t0 initialPost t1))))"
  shows "speaker (delivered (responses (run evs (started t0 initialPost t1))) ! i)
           = (if even i then boss else girl)"
proof -
  from assms(1) have "inv (run evs (started t0 initialPost t1))" by (rule reach_inv)
  then have "numbered 1 (delivered (responses (run evs (started t0 initialPost t1))))"
    by (simp add: inv_def restOk_def schedOk_def logOk_def)
  from numbered_speakers [OF this assms(2)] show ?thesis by (simp add: speakerFor_def)
qed

lemma locked_post_without_restart:
  assumes "list_all isPollOrProgress evs"
    and "g \<in> set (inFlight (tasks (run evs (started t0 initialPost t1))))"
    and "hasPrompt g"
  shows "promptPost g = lockedPost (st (run evs (started t0 initialPost t1)))"
proof -
  from assms(1) have "inv (run evs (started t0 initialPost t1))" by (rule reach_inv)
  with assms(2,3) show ?thesis by (simp add: inv_def restOk_def promptOk_def)
qed

subsection \<open>C1: one generation at a time\<close>

text \<open>
  C1 says that, because a call of the generation operation is a no-op while
  \<open>isGenerating\<close> is set, no interleaving of polls yields two pending turns at once
  or more than one generation in flight. The code does both.

  Polls only, on a fresh service (\<open>raceOverlap\<close>, \<open>raceOverwrite\<close>): the first poll
  calls \<^verbatim>\<open>startConversation\<close> and awaits the context source; a second poll generates
  and hands out turn 1 and leaves turn 2 pending; then the continuation of
  \<^verbatim>\<open>startConversation\<close> starts a generation without looking at the pending slot. A
  generation is now in flight while turn 2 is pending, and when it ends turn 3 takes
  the slot: turn 2 was given to no poll.

  A poll after \<^verbatim>\<open>stop()\<close> (\<open>stopPollTrace\<close>): the poll calls \<^verbatim>\<open>startConversation\<close>,
  which replaces the state, and with it the flag, while the first generation is
  suspended at the backend call; its continuation starts a second generation. Two
  generations are in flight.
\<close>

theorem C1_generation_overlap:
  "isGenerating (st (run raceOverlap initialConfig))
   \<and> map_option turnNumber (pendingResponse (st (run raceOverlap initialConfig))) = Some 2
   \<and> length (inFlight (tasks (run raceOverlap initialConfig))) = 1
   \<and> map_option turnNumber (pendingResponse (st (run raceOverwrite initialConfig))) = Some 3
   \<and> map turnNumber (delivered (responses (run raceOverwrite initialConfig))) = [1]
   \<and> length (inFlight (tasks (run stopPollTrace initialConfig))) = 2"
  by (simp add: raceOverlap_def raceOverwrite_def stopPollTrace_def trace_defs
      postX_def postY_def Let_def)

subsection \<open>C2: turn numbers\<close>

text \<open>
  C2 says that the turns handed out are numbered 1, 2, 3, ... with no gap and no
  repeat. The code hands out other sequences.

  Polls only, on a fresh service (\<open>raceTrace\<close>): turn 2 is overwritten by turn 3
  before a poll takes it, and the polls are given the turns 1 and 3.

  A second call of \<^verbatim>\<open>startConversation\<close> while the first generation awaits the
  backend (\<open>secondStartTrace\<close>): the state is replaced, the first generation later
  writes turn 1 into the new state, the generation of the second start writes turn 2
  over it, and the first turn handed out after the start has the number 2.
\<close>

theorem C2_turn_overwritten:
  "map turnNumber (delivered (responses (run raceTrace initialConfig))) = [1, 3]
   \<and> map turnNumber (delivered (responses (run secondStartTrace initialConfig))) = [2]"
  by (simp add: raceTrace_def secondStartTrace_def trace_defs postX_def postY_def Let_def)

subsection \<open>C3: the locked post during a generation\<close>




subsection \<open>C4: the history ledger\<close>

text \<open>
  C4, as stated: an append that takes the ledger over 40 entries trims it to a window
  of 20. It does not: with 40 entries in the ledger, the turn that appends the 41st
  leaves 40 entries, not 20.
\<close>

theorem C4_counterexample:
  "length (history fullHistoryState @ [\<lparr>entrySpeaker = ''Agent 1'', entryText = ''hi''\<rparr>]) > 40
   \<and> length (history (emitTurn AGENT_1_PERSONA ''hi'' None fullHistoryState)) = 40
   \<and> length (history (emitTurn AGENT_1_PERSONA ''hi'' None fullHistoryState)) \<noteq> 20"
  by (simp add: fullHistoryState_def getInitialState_def emitTurn_def sliceLast_def
      finallyBlock_def Let_def)

text \<open>
  C4, amended: a turn with a non-empty text appends one entry, and the ledger is cut
  in that same step to the most recent 40 entries, in insertion order; so it holds
  \<open>min 40 (n + 1)\<close> entries when it held \<open>n\<close>. (The window of 20 is what
  \<open>buildConversationHistory\<close> reads for the prompt; it never shortens the ledger.)
\<close>

theorem C4_history_cap:
  "cleanText \<noteq> [] \<Longrightarrow>
   history (emitTurn persona cleanText np s)
     = sliceLast 40 (history s @ [\<lparr>entrySpeaker = name persona, entryText = cleanText\<rparr>])
   \<and> length (history (emitTurn persona cleanText np s)) = min 40 (length (history s) + 1)"
  by (auto simp add: emitTurn_def sliceLast_def finallyBlock_def Let_def)

theorem C4_history_cap_witness:
  "(''hi'' :: string) \<noteq> []
   \<and> (history (emitTurn AGENT_1_PERSONA ''hi'' None fullHistoryState)
       = sliceLast 40 (history fullHistoryState
           @ [\<lparr>entrySpeaker = name AGENT_1_PERSONA, entryText = ''hi''\<rparr>])
     \<and> length (history (emitTurn AGENT_1_PERSONA ''hi'' None fullHistoryState))
       = min 40 (length (history fullHistoryState) + 1))"
proof -
  have h: "(''hi'' :: string) \<noteq> []" by simp
  show ?thesis by (rule conjI [OF h C4_history_cap [OF h]])
qed

subsection \<open>C5: the payload for the display\<close>

text \<open>
  C5, as stated: a generated turn carries \<open>newPost\<close> if and only if it is the first
  turn or the timeout fired. The "if" fails: on the first turn of a conversation whose
  context source has no item, the turn is delivered without \<open>newPost\<close>.
\<close>

theorem C5_counterexample:
  "turnCount freshState = 0
   \<and> snd (generateNextResponse noPostEnv freshState) = Completed
   \<and> map_option newPost (pendingResponse (fst (generateNextResponse noPostEnv freshState)))
       = Some None"
  by (simp add: freshState_def noPostEnv_def startConversationBegin_def getInitialState_def
      cycle_defs Let_def)

text \<open>
  C5, amended: a generated turn carries \<open>newPost\<close> only if it is the first turn or
  the timeout fired in its cycle, and then it carries what the context source gave:
  on the first turn the locked post the prompt was built from, on a later turn whose
  timeout fired the item returned by \<^verbatim>\<open>refresh\<close>; nothing when there is no such
  item. Any other turn carries no \<open>newPost\<close>.
\<close>

theorem C5_new_post:
  "generateNextResponse env s = (s', Completed) \<Longrightarrow>
   \<exists>d. pendingResponse s' = Some d \<and>
       newPost d =
         (if turnCount s = 0 then
            (case lockedPost s of
               Some p \<Rightarrow> Some p
             | None \<Rightarrow> (case latestPostReply env of Returns p \<Rightarrow> p | Throws \<Rightarrow> None))
          else if isPostTimedOut (aiTime env) s then
            (case refreshReply env of Returns p \<Rightarrow> p | Throws \<Rightarrow> None)
          else None)"
  by (auto simp add: cycle_defs isPostTimedOut_def Let_def
      split: if_splits outcome.splits option.splits)

theorem C5_new_post_witness:
  "generateNextResponse timeoutEnv secondTurnState
     = (fst (generateNextResponse timeoutEnv secondTurnState), Completed)
   \<and> (\<exists>d. pendingResponse (fst (generateNextResponse timeoutEnv secondTurnState)) = Some d
         \<and> newPost d = Some postY)"
proof -
  have h: "generateNextResponse timeoutEnv secondTurnState
     = (fst (generateNextResponse timeoutEnv secondTurnState), Completed)"
    by (simp add: prod_eq_iff timeoutEnv_def secondTurnState_def cycle_defs clean_hello
      isPostTimedOut_def POST_TIMEOUT_MS_def Let_def)
  have t: "isPostTimedOut (aiTime timeoutEnv) secondTurnState"
    by (simp add: timeoutEnv_def secondTurnState_def isPostTimedOut_def POST_TIMEOUT_MS_def)
  show ?thesis
    using h t C5_new_post [OF h]
    by (simp add: timeoutEnv_def secondTurnState_def)
qed

subsection \<open>C6: alternating speakers\<close>

text \<open>
  C6 says that the speakers of the turns handed out alternate, and that the first turn
  handed out after a start is spoken by the initial speaker, \<open>boss\<close>. The code hands
  out other sequences.

  Polls only, on a fresh service (\<open>raceTrace\<close>): the turn of \<open>girl\<close> is overwritten
  before a poll takes it, and two turns in a row are spoken by \<open>boss\<close>.

  A second call of \<^verbatim>\<open>startConversation\<close> while the first generation awaits the
  backend (\<open>secondStartTrace\<close>): the first turn handed out after the start has the
  speaker \<open>girl\<close>, and the name and the text of the persona of \<open>boss\<close>, whose prompt
  the generation had built before the first generation switched the speaker.
\<close>

theorem C6_speaker_repeated:
  "currentSpeaker getInitialState = boss
   \<and> map speaker (delivered (responses (run raceTrace initialConfig))) = [boss, boss]
   \<and> map speaker (delivered (responses (run secondStartTrace initialConfig))) = [girl]
   \<and> map speakerName (delivered (responses (run secondStartTrace initialConfig)))
       = [''Agent 1'']"
  by (simp add: raceTrace_def secondStartTrace_def trace_defs postX_def postY_def Let_def
      BOSS_PERSONA_def AGENT_1_PERSONA_def)

subsection \<open>C7: fallback utterances\<close>



subsection \<open>C8: a turn with an empty text\<close>

text \<open>
  C8: when the cleaned text of a cycle is empty, the turn is still built and stored
  as the pending response, with the empty text and the next turn number, and the
  history gets no new entry (it is the old history, cut to its last 40 entries, which
  is the old history itself when that had at most 40).
\<close>

theorem C8_empty_text:
  assumes "generateNextResponse env s = (s', Completed)"
    and "aiReply env = Returns raw" and "cleanResponse raw = []"
  shows "\<exists>d. pendingResponse s' = Some d \<and> lineText d = [] \<and> turnNumber d = turnCount s + 1
           \<and> turnCount s' = turnCount s + 1
           \<and> history s' = sliceLast 40 (history s)
           \<and> (length (history s) \<le> 40 \<longrightarrow> history s' = history s)"
proof -
  from assms(1) obtain raw' np s0 where r: "aiReply env = Returns raw'"
    and s': "s' = emitTurn (getCurrentPersona s) (cleanResponse raw') np s0"
    and same: "turnCount s0 = turnCount s" "history s0 = history s"
    by (rule completed_cases)
  from r assms(2) have "raw' = raw" by simp
  with s' assms(3) have s'': "s' = emitTurn (getCurrentPersona s) [] np s0" by simp
  show ?thesis
    unfolding s'' by (simp add: emitTurn_fields same sliceLast_def)
qed

theorem C8_empty_text_witness:
  "generateNextResponse passEnv secondTurnState
     = (fst (generateNextResponse passEnv secondTurnState), Completed)
   \<and> aiReply passEnv = Returns ''[NEXT_POST]'' \<and> cleanResponse ''[NEXT_POST]'' = []
   \<and> (\<exists>d. pendingResponse (fst (generateNextResponse passEnv secondTurnState)) = Some d
         \<and> lineText d = [] \<and> turnNumber d = turnCount secondTurnState + 1
         \<and> turnCount (fst (generateNextResponse passEnv secondTurnState))
             = turnCount secondTurnState + 1
         \<and> history (fst (generateNextResponse passEnv secondTurnState))
             = sliceLast 40 (history secondTurnState)
         \<and> (length (history secondTurnState) \<le> 40 \<longrightarrow>
              history (fst (generateNextResponse passEnv secondTurnState))
                = history secondTurnState))"
proof -
  have h2: "aiReply passEnv = Returns ''[NEXT_POST]''" by (simp add: passEnv_def)
  show ?thesis
    using passEnv_completed h2 clean_pass C8_empty_text [OF passEnv_completed h2 clean_pass]
    by blast
qed

subsection \<open>C9: a poll of an inactive conversation\<close>

text \<open>
  C9: a poll of a conversation that is not active (never started, or stopped) first
  restarts it: the state is the initial state again, active, with the timer reset;
  when the context source has answered, the initial post is locked and the first
  generation is in flight; then the poll goes on as any poll does (\<open>pollBody\<close>). With
  nothing interleaved its answer is the waiting sentinel, because that first
  generation is in flight, not because the conversation was inactive.
\<close>

theorem C9_poll_restarts:
  assumes "\<not> isActive (st c)"
    and "c1 = step (Poll t0) c"
    and "c2 = step (Resume (length (tasks c)) (PostReply (Returns initialPost)) t1) c1"
    and "c3 = step (Continue (length (tasks c))) c2"
  shows "st c1 = getInitialState\<lparr>isActive := True, postShownAt := Some t0\<rparr>
       \<and> tasks c1 = tasks c @ [PollStart] \<and> responses c1 = responses c
       \<and> history (st c2) = [] \<and> turnCount (st c2) = 0 \<and> isActive (st c2)
       \<and> lockedPost (st c2) = initialPost \<and> postLocked (st c2) = (initialPost \<noteq> None)
       \<and> pendingResponse (st c2) = None \<and> isGenerating (st c2)
       \<and> (\<exists>g. tasks c2 = tasks c @ [PollAfterStart, Gen g])
       \<and> responses c2 = responses c
       \<and> c3 = applyPoll (replaceAt (length (tasks c)) (tasks c2) []) (pollBody (st c2)) c2
       \<and> st c3 = st c2 \<and> responses c3 = responses c @ [Waiting]"
proof -
  have c1: "c1 = c\<lparr>st := getInitialState\<lparr>isActive := True, postShownAt := Some t0\<rparr>,
                  tasks := tasks c @ [PollStart]\<rparr>"
    using assms(1,2) by (simp add: startConversationBegin_def resetPostTimer_def)
  have c2: "c2 = (case startConversationEnd initialPost (st c1) of
                 (s', sp) \<Rightarrow> c1\<lparr>st := s', tasks := tasks c @ [PollAfterStart] @ sp\<rparr>)"
    using assms(3) by (simp add: c1 resumeTask_def replaceAt_def nth_append)
  have s2: "history (st c2) = [] \<and> turnCount (st c2) = 0 \<and> isActive (st c2)
       \<and> lockedPost (st c2) = initialPost \<and> postLocked (st c2) = (initialPost \<noteq> None)
       \<and> pendingResponse (st c2) = None \<and> isGenerating (st c2)
       \<and> (\<exists>g. tasks c2 = tasks c @ [PollAfterStart, Gen g])
       \<and> responses c2 = responses c"
    unfolding c2
    by (cases initialPost)
       (simp_all add: c1 startConversationEnd_def getInitialState_def lockPost_def
         beginGeneration_def buildPrompt_def getLockedPost_def Let_def)
  then obtain g where t2: "tasks c2 = tasks c @ [PollAfterStart, Gen g]" by blast
  have c3: "c3 = applyPoll (replaceAt (length (tasks c)) (tasks c2) []) (pollBody (st c2)) c2"
    using assms(4) by (simp add: t2 continueTask_def nth_append)
  from s2 have "pollBody (st c2) = (st c2, [], Answered Waiting)"
    by (simp add: pollBody_def takePending_def)
  with c3 s2 have "st c3 = st c2 \<and> responses c3 = responses c @ [Waiting]"
    by (simp add: applyPoll_def)
  with c1 s2 c3 show ?thesis by simp
qed

theorem C9_poll_restarts_witness:
  "\<not> isActive (st stoppedConfig)
   \<and> history (st (run restartTrace stoppedConfig)) = []
   \<and> turnCount (st (run restartTrace stoppedConfig)) = 0
   \<and> isActive (st (run restartTrace stoppedConfig))
   \<and> lockedPost (st (run restartTrace stoppedConfig)) = Some postY
   \<and> responses (run restartTrace stoppedConfig) = responses stoppedConfig @ [Waiting]"
proof -
  define c1 where "c1 = step (Poll 5000) stoppedConfig"
  define c2 where
    "c2 = step (Resume (length (tasks stoppedConfig)) (PostReply (Returns (Some postY))) 5001) c1"
  define c3 where "c3 = step (Continue (length (tasks stoppedConfig))) c2"
  have r: "run restartTrace stoppedConfig = c3"
    by (simp only: restartTrace_def run.simps stopped_facts(2) c1_def c2_def c3_def)
  from C9_poll_restarts [OF stopped_facts(1) c1_def c2_def c3_def]
  have "history (st c2) = []" "turnCount (st c2) = 0" "isActive (st c2)"
    "lockedPost (st c2) = Some postY" "st c3 = st c2"
    "responses c3 = responses stoppedConfig @ [Waiting]"
    by blast+
  with stopped_facts(1) show ?thesis unfolding r by simp
qed

subsection \<open>C10: exceptions in a generation cycle\<close>

text \<open>
  C10: when a call that a generation awaits throws, the cycle ends in its
  \<^verbatim>\<open>catch\<close> block: \<open>isGenerating\<close> is reset, the pending response and the turn
  count are as they were, and the next call of the generation operation starts a new
  cycle. The same holds for a whole cycle that ends in the \<^verbatim>\<open>catch\<close> block.
\<close>

theorem C10_exception:
  "(resumeGen now g r s = Some (s', pr) \<and> isThrow r \<longrightarrow>
      pr = Caught \<and> \<not> isGenerating s' \<and> pendingResponse s' = pendingResponse s
      \<and> turnCount s' = turnCount s
      \<and> (\<exists>s'' g'. beginGeneration s' = (s'', Suspended g')))
   \<and> (generateNextResponse env s0 = (s1, Caught) \<longrightarrow>
      \<not> isGenerating s1 \<and> pendingResponse s1 = pendingResponse s0
      \<and> turnCount s1 = turnCount s0
      \<and> (\<exists>s'' g'. beginGeneration s1 = (s'', Suspended g')))"
proof (rule conjI; rule impI)
  assume a: "resumeGen now g r s = Some (s', pr) \<and> isThrow r"
  then have s': "s' = finallyBlock s" and pr: "pr = Caught"
    using resume_throw [of now g r s s' pr] by simp_all
  show "pr = Caught \<and> \<not> isGenerating s' \<and> pendingResponse s' = pendingResponse s
      \<and> turnCount s' = turnCount s
      \<and> (\<exists>s'' g'. beginGeneration s' = (s'', Suspended g'))"
    using retry_after_finally [of s'] by (simp add: s' pr finallyBlock_def)
next
  assume "generateNextResponse env s0 = (s1, Caught)"
  from caught_cases [OF this]
  show "\<not> isGenerating s1 \<and> pendingResponse s1 = pendingResponse s0
      \<and> turnCount s1 = turnCount s0
      \<and> (\<exists>s'' g'. beginGeneration s1 = (s'', Suspended g'))"
    using retry_after_finally [of s1] by simp
qed

theorem C10_exception_witness:
  "(resumeGen 5000 awaitingTask (TextReply Throws) awaitingState
       = Some (finallyBlock awaitingState, Caught) \<and> isThrow (TextReply Throws))
   \<and> generateNextResponse throwingEnv secondTurnState
       = (fst (generateNextResponse throwingEnv secondTurnState), Caught)
   \<and> \<not> isGenerating (finallyBlock awaitingState)
   \<and> pendingResponse (finallyBlock awaitingState) = pendingResponse awaitingState
   \<and> turnCount (finallyBlock awaitingState) = turnCount awaitingState
   \<and> (\<exists>s'' g'. beginGeneration (finallyBlock awaitingState) = (s'', Suspended g'))
   \<and> \<not> isGenerating (fst (generateNextResponse throwingEnv secondTurnState))
   \<and> pendingResponse (fst (generateNextResponse throwingEnv secondTurnState)) = None
   \<and> turnCount (fst (generateNextResponse throwingEnv secondTurnState)) = 1"
proof -
  obtain h ctx where t: "awaitingTask = AwaitAI False (Some postX) GIRL_PERSONA h ctx"
    using awaiting_unfold by blast
  have h1: "resumeGen 5000 awaitingTask (TextReply Throws) awaitingState
       = Some (finallyBlock awaitingState, Caught) \<and> isThrow (TextReply Throws)"
    by (simp add: t afterAI_def)
  have h2: "generateNextResponse throwingEnv secondTurnState
       = (fst (generateNextResponse throwingEnv secondTurnState), Caught)"
    by (simp add: prod_eq_iff throwingEnv_def secondTurnState_def cycle_defs Let_def)
  have p: "pendingResponse secondTurnState = None" "turnCount secondTurnState = 1"
    by (simp_all add: secondTurnState_def)
  from C10_exception [of 5000 awaitingTask "TextReply Throws" awaitingState
      "finallyBlock awaitingState" Caught throwingEnv secondTurnState
      "fst (generateNextResponse throwingEnv secondTurnState)"] h1 h2 p
  show ?thesis by simp
qed

end
